theory Spec2Isabelle
  imports Complex_Main
begin

section \<open>Values of the drawing server\<close>

text \<open>
  Room ids, user ids, socket ids, stroke ids and colours are JavaScript strings. A
  point \<open>{ x, y }\<close> is a pair of numbers that the server only stores and copies, never
  computes with. Clock readings (\<open>Date.now()\<close>) and the two counters are natural
  numbers (JavaScript numbers are exact on them below \<open>2^53\<close>).
\<close>

datatype point = Point real real

text \<open>The stroke object built by \<open>addStroke\<close>; a \<open>null\<close> colour (eraser) is \<open>None\<close>.\<close>

record stroke =
  id_s :: string
  userId_s :: string
  timestamp_s :: nat
  type_s :: string
  color_s :: "string option"
  size_s :: real
  path_s :: "point list"

text \<open>The \<open>strokeData\<close> argument of \<open>addStroke\<close>; a missing field is \<open>None\<close>.\<close>

record strokeData =
  userId_d :: string
  timestamp_d :: "nat option"
  type_d :: "string option"
  color_d :: "string option"
  size_d :: real
  path_d :: "point list"

text \<open>
  \<open>{ strokes: Array, undoStacks: Map<userId, Array> }\<close>. Arrays are lists whose last
  element is the most recently pushed one.
\<close>

record roomState =
  strokes :: "stroke list"
  undoStacks :: "string \<rightharpoonup> stroke list"

record DrawingStateManager =
  roomStates :: "string \<rightharpoonup> roomState"
  strokeIdCounter :: nat

record fullState =
  roomId_f :: string
  strokes_f :: "stroke list"

subsection \<open>JavaScript truthiness and number formatting\<close>

text \<open>A string operand of \<open>!\<close> or \<open>||\<close> is falsy when it is missing or empty.\<close>

definition falsy :: "string option \<Rightarrow> bool" where
  "falsy v = (case v of None \<Rightarrow> True | Some s \<Rightarrow> s = [])"

definition digit :: "nat \<Rightarrow> char" where
  "digit d = char_of (48 + d)"

text \<open>The decimal digits a template literal prints for a non-negative integer.\<close>

fun dec :: "nat \<Rightarrow> string" where
  "dec n = (if n < 10 then [digit n] else dec (n div 10) @ [digit (n mod 10)])"

declare dec.simps [simp del]

section \<open>DrawingStateManager\<close>

definition constructor_dsm :: DrawingStateManager where
  "constructor_dsm = \<lparr>roomStates = Map.empty, strokeIdCounter = 0\<rparr>"

text \<open>\<open>_getRoomState\<close>: get or create the room state.\<close>

definition getRoomState :: "DrawingStateManager \<Rightarrow> string \<Rightarrow> roomState \<times> DrawingStateManager" where
  "getRoomState m roomId =
     (case roomStates m roomId of
        None \<Rightarrow>
          (\<lparr>strokes = [], undoStacks = Map.empty\<rparr>,
           m\<lparr>roomStates := (roomStates m)(roomId \<mapsto> \<lparr>strokes = [], undoStacks = Map.empty\<rparr>)\<rparr>)
      | Some roomState \<Rightarrow> (roomState, m))"

text \<open>\<open>_generateStrokeId\<close>: \<open>`stroke_${++this.strokeIdCounter}_${Date.now()}`\<close>.\<close>

definition generateStrokeId :: "DrawingStateManager \<Rightarrow> nat \<Rightarrow> string \<times> DrawingStateManager" where
  "generateStrokeId m now =
     (''stroke_'' @ dec (Suc (strokeIdCounter m)) @ ''_'' @ dec now,
      m\<lparr>strokeIdCounter := Suc (strokeIdCounter m)\<rparr>)"

text \<open>
  \<open>addStroke\<close>. \<open>nowId\<close> is the clock reading taken by \<open>_generateStrokeId\<close>, \<open>nowTs\<close>
  the one taken when \<open>strokeData.timestamp\<close> is falsy (missing or 0).
\<close>

definition addStroke ::
  "DrawingStateManager \<Rightarrow> string \<Rightarrow> strokeData \<Rightarrow> nat \<Rightarrow> nat \<Rightarrow> stroke \<times> DrawingStateManager" where
  "addStroke m roomId strokeData nowId nowTs =
     (let (roomState, m1) = getRoomState m roomId;
          (newId, m2) = generateStrokeId m1 nowId;
          stroke = \<lparr>id_s = newId,
                    userId_s = userId_d strokeData,
                    timestamp_s = (case timestamp_d strokeData of
                                     None \<Rightarrow> nowTs
                                   | Some t \<Rightarrow> if t = 0 then nowTs else t),
                    type_s = (if falsy (type_d strokeData) then ''draw''
                              else the (type_d strokeData)),
                    color_s = color_d strokeData,
                    size_s = size_d strokeData,
                    path_s = path_d strokeData\<rparr>
      in (stroke,
          m2\<lparr>roomStates := (roomStates m2)(roomId \<mapsto>
                roomState\<lparr>strokes := strokes roomState @ [stroke],
                          undoStacks := (undoStacks roomState)(userId_d strokeData := None)\<rparr>)\<rparr>))"

text \<open>\<open>Array.prototype.find\<close>, giving the position of the element it returns.\<close>

fun findIndex :: "('a \<Rightarrow> bool) \<Rightarrow> 'a list \<Rightarrow> nat option" where
  "findIndex P [] = None"
| "findIndex P (a # as) = (if P a then Some 0 else map_option Suc (findIndex P as))"

definition updateStroke ::
  "DrawingStateManager \<Rightarrow> string \<Rightarrow> string \<Rightarrow> real \<Rightarrow> real \<Rightarrow> bool \<times> DrawingStateManager" where
  "updateStroke m roomId strokeId x y =
     (case roomStates m roomId of
        None \<Rightarrow> (False, m)
      | Some roomState \<Rightarrow>
          (case findIndex (\<lambda>s. id_s s = strokeId) (strokes roomState) of
             None \<Rightarrow> (False, m)
           | Some i \<Rightarrow>
               (let stroke = strokes roomState ! i
                in (True,
                    m\<lparr>roomStates := (roomStates m)(roomId \<mapsto>
                          roomState\<lparr>strokes := (strokes roomState)
                             [i := stroke\<lparr>path_s := path_s stroke @ [Point x y]\<rparr>]\<rparr>)\<rparr>))))"

text \<open>\<open>finalizeStroke\<close> has an empty body.\<close>

definition finalizeStroke :: "DrawingStateManager \<Rightarrow> string \<Rightarrow> string \<Rightarrow> DrawingStateManager" where
  "finalizeStroke m roomId strokeId = m"

text \<open>
  The loop of \<open>undo\<close>: \<open>lastIndexFrom ss u k\<close> examines the indices \<open>k - 1\<close> down to
  \<open>0\<close> and stops at the first stroke of user \<open>u\<close>; \<open>None\<close> is the source's \<open>-1\<close>.
\<close>

fun lastIndexFrom :: "stroke list \<Rightarrow> string \<Rightarrow> nat \<Rightarrow> nat option" where
  "lastIndexFrom ss u 0 = None"
| "lastIndexFrom ss u (Suc i) =
     (if userId_s (ss ! i) = u then Some i else lastIndexFrom ss u i)"

definition undo ::
  "DrawingStateManager \<Rightarrow> string \<Rightarrow> string \<Rightarrow> stroke option \<times> DrawingStateManager" where
  "undo m roomId userId =
     (case roomStates m roomId of
        None \<Rightarrow> (None, m)
      | Some roomState \<Rightarrow>
          (case lastIndexFrom (strokes roomState) userId (length (strokes roomState)) of
             None \<Rightarrow> (None, m)
           | Some i \<Rightarrow>
               (let undoneStroke = strokes roomState ! i;
                    undoStack = (case undoStacks roomState userId of
                                   None \<Rightarrow> []
                                 | Some stack \<Rightarrow> stack)
                in (Some undoneStroke,
                    m\<lparr>roomStates := (roomStates m)(roomId \<mapsto>
                          \<lparr>strokes = take i (strokes roomState) @ drop (Suc i) (strokes roomState),
                           undoStacks = (undoStacks roomState)
                             (userId \<mapsto> undoStack @ [undoneStroke])\<rparr>)\<rparr>))))"

definition redo ::
  "DrawingStateManager \<Rightarrow> string \<Rightarrow> string \<Rightarrow> stroke option \<times> DrawingStateManager" where
  "redo m roomId userId =
     (case roomStates m roomId of
        None \<Rightarrow> (None, m)
      | Some roomState \<Rightarrow>
          (case undoStacks roomState userId of
             None \<Rightarrow> (None, m)
           | Some undoStack \<Rightarrow>
               if undoStack = [] then (None, m)
               else
                 (let redoneStroke = last undoStack;
                      rest = butlast undoStack
                  in (Some redoneStroke,
                      m\<lparr>roomStates := (roomStates m)(roomId \<mapsto>
                            \<lparr>strokes = strokes roomState @ [redoneStroke],
                             undoStacks =
                               (if rest = [] then (undoStacks roomState)(userId := None)
                                else (undoStacks roomState)(userId \<mapsto> rest))\<rparr>)\<rparr>))))"

text \<open>
  \<open>getFullState\<close> reads the map with \<open>get\<close> (not \<open>_getRoomState\<close>) and returns copies;
  the manager it leaves behind is returned as the second component.
\<close>

definition getFullState :: "DrawingStateManager \<Rightarrow> string \<Rightarrow> fullState \<times> DrawingStateManager" where
  "getFullState m roomId =
     (case roomStates m roomId of
        None \<Rightarrow> (\<lparr>roomId_f = roomId, strokes_f = []\<rparr>, m)
      | Some roomState \<Rightarrow>
          (\<lparr>roomId_f = roomId,
            strokes_f = map (\<lambda>stroke.
               \<lparr>id_s = id_s stroke, userId_s = userId_s stroke,
                timestamp_s = timestamp_s stroke, type_s = type_s stroke,
                color_s = color_s stroke, size_s = size_s stroke,
                path_s = path_s stroke\<rparr>) (strokes roomState)\<rparr>, m))"

definition clearRoom :: "DrawingStateManager \<Rightarrow> string \<Rightarrow> DrawingStateManager" where
  "clearRoom m roomId = m\<lparr>roomStates := (roomStates m)(roomId := None)\<rparr>"

text \<open>
  A sequence of calls on the store: each constructor carries the arguments of the
  call, clock readings included.
\<close>

datatype op =
    AddStroke string strokeData nat nat
  | UpdateStroke string string real real
  | Undo string string
  | Redo string string

fun exec :: "DrawingStateManager \<Rightarrow> op \<Rightarrow> DrawingStateManager" where
  "exec m (AddStroke roomId strokeData nowId nowTs) = snd (addStroke m roomId strokeData nowId nowTs)"
| "exec m (UpdateStroke roomId strokeId x y) = snd (updateStroke m roomId strokeId x y)"
| "exec m (Undo roomId userId) = snd (undo m roomId userId)"
| "exec m (Redo roomId userId) = snd (redo m roomId userId)"

definition run :: "DrawingStateManager \<Rightarrow> op list \<Rightarrow> DrawingStateManager" where
  "run m ops = foldl exec m ops"

text \<open>The strokes a room's timeline holds (none when the room has no state).\<close>

definition timeline :: "DrawingStateManager \<Rightarrow> string \<Rightarrow> stroke list" where
  "timeline m roomId = (case roomStates m roomId of None \<Rightarrow> [] | Some rs \<Rightarrow> strokes rs)"



text \<open>The undo stack of a user in a room (\<open>None\<close> when the room or the stack is absent).\<close>

definition stackOf :: "DrawingStateManager \<Rightarrow> string \<Rightarrow> string \<Rightarrow> stroke list option" where
  "stackOf m roomId userId =
     (case roomStates m roomId of None \<Rightarrow> None | Some rs \<Rightarrow> undoStacks rs userId)"

section \<open>RoomManager\<close>

definition USER_COLORS :: "string list" where
  "USER_COLORS =
     [''#FF6B6B'', ''#4ECDC4'', ''#45B7D1'', ''#FFA07A'', ''#98D8C8'',
      ''#F7DC6F'', ''#BB8FCE'', ''#85C1E2'', ''#F8B739'', ''#52BE80'']"

record user =
  userId_u :: string
  socketId_u :: string
  roomId_u :: string
  color_u :: string

text \<open>
  A JavaScript \<open>Set\<close> is a list without duplicates in insertion order: \<open>add\<close> appends
  an absent element, \<open>delete\<close> removes the element.
\<close>

definition Set_add :: "'a list \<Rightarrow> 'a \<Rightarrow> 'a list" where
  "Set_add xs a = (if a \<in> set xs then xs else xs @ [a])"

definition Set_delete :: "'a list \<Rightarrow> 'a \<Rightarrow> 'a list" where
  "Set_delete xs a = removeAll a xs"

record RoomManager =
  users :: "string \<rightharpoonup> user"
  rooms :: "string \<rightharpoonup> string list"
  roomColors :: "string \<rightharpoonup> string list"
  userIdCounter :: nat

definition constructor_rm :: RoomManager where
  "constructor_rm =
     \<lparr>users = Map.empty, rooms = Map.empty, roomColors = Map.empty, userIdCounter = 0\<rparr>"

text \<open>
  \<open>addUser\<close>. \<open>now\<close> is the reading of \<open>Date.now()\<close> and \<open>random\<close> the value of
  \<open>Math.random()\<close>, used only when every palette colour is in the room's set; the
  product with the palette length is taken exactly here and in double precision in
  the source, which can differ where the product is within rounding of an integer. The
  result \<open>None\<close> is the \<open>TypeError\<close> of calling a method of \<open>undefined\<close>, when a
  room has a socket set and no colour set.
\<close>

definition addUser ::
  "RoomManager \<Rightarrow> string \<Rightarrow> string \<Rightarrow> nat \<Rightarrow> real \<Rightarrow> (user \<times> RoomManager) option" where
  "addUser rm socketId roomId now random =
     (let userId = ''user_'' @ dec (Suc (userIdCounter rm)) @ ''_'' @ dec now;
          rm1 = rm\<lparr>userIdCounter := Suc (userIdCounter rm)\<rparr>;
          rm2 = (if rooms rm1 roomId = None
                 then rm1\<lparr>rooms := (rooms rm1)(roomId \<mapsto> []),
                          roomColors := (roomColors rm1)(roomId \<mapsto> [])\<rparr>
                 else rm1)
      in case roomColors rm2 roomId of
           None \<Rightarrow> None
         | Some usedColors \<Rightarrow>
             (let assignedColor =
                    (case find (\<lambda>color. color \<notin> set usedColors) USER_COLORS of
                       Some color \<Rightarrow> color
                     | None \<Rightarrow> USER_COLORS ! nat \<lfloor>random * real (length USER_COLORS)\<rfloor>);
                  user = \<lparr>userId_u = userId, socketId_u = socketId,
                          roomId_u = roomId, color_u = assignedColor\<rparr>
              in case rooms rm2 roomId of
                   None \<Rightarrow> None
                 | Some roomSockets \<Rightarrow>
                     Some (user,
                       rm2\<lparr>roomColors := (roomColors rm2)(roomId \<mapsto> Set_add usedColors assignedColor),
                           users := (users rm2)(socketId \<mapsto> user),
                           rooms := (rooms rm2)(roomId \<mapsto> Set_add roomSockets socketId)\<rparr>)))"

definition removeUser :: "RoomManager \<Rightarrow> string \<Rightarrow> RoomManager option" where
  "removeUser rm socketId =
     (case users rm socketId of
        None \<Rightarrow> Some rm
      | Some user \<Rightarrow>
          (case rooms rm (roomId_u user) of
             None \<Rightarrow> Some (rm\<lparr>users := (users rm)(socketId := None)\<rparr>)
           | Some roomSockets \<Rightarrow>
               if length (Set_delete roomSockets socketId) = 0
               then Some (rm\<lparr>rooms := (rooms rm)(roomId_u user := None),
                              roomColors := (roomColors rm)(roomId_u user := None),
                              users := (users rm)(socketId := None)\<rparr>)
               else
                 (case roomColors rm (roomId_u user) of
                    None \<Rightarrow> None
                  | Some usedColors \<Rightarrow>
                      Some (rm\<lparr>rooms := (rooms rm)(roomId_u user \<mapsto> Set_delete roomSockets socketId),
                                roomColors := (roomColors rm)
                                  (roomId_u user \<mapsto> Set_delete usedColors (color_u user)),
                                users := (users rm)(socketId := None)\<rparr>))))"

definition getUser :: "RoomManager \<Rightarrow> string \<Rightarrow> user option" where
  "getUser rm socketId = users rm socketId"

definition getRoomUserCount :: "RoomManager \<Rightarrow> string \<Rightarrow> nat" where
  "getRoomUserCount rm roomId =
     (case rooms rm roomId of None \<Rightarrow> 0 | Some roomSockets \<Rightarrow> length roomSockets)"

definition getRoomUsers :: "RoomManager \<Rightarrow> string \<Rightarrow> user list" where
  "getRoomUsers rm roomId =
     (case rooms rm roomId of
        None \<Rightarrow> []
      | Some roomSockets \<Rightarrow> List.map_filter (\<lambda>socketId. users rm socketId) roomSockets)"

text \<open>A sequence of joins and leaves on the registry; the run stops at a \<open>TypeError\<close>.\<close>

datatype reg_op =
    Join string string nat real
  | Leave string

fun reg_exec :: "RoomManager \<Rightarrow> reg_op \<Rightarrow> RoomManager option" where
  "reg_exec rm (Join socketId roomId now random) =
     map_option snd (addUser rm socketId roomId now random)"
| "reg_exec rm (Leave socketId) = removeUser rm socketId"

fun reg_run :: "RoomManager \<Rightarrow> reg_op list \<Rightarrow> RoomManager option" where
  "reg_run rm [] = Some rm"
| "reg_run rm (a # as) =
     (case reg_exec rm a of None \<Rightarrow> None | Some rm' \<Rightarrow> reg_run rm' as)"

text \<open>
  Whether the member count of a room stays within \<open>n\<close> before, between and after the
  calls of a sequence.
\<close>

fun countWithin :: "RoomManager \<Rightarrow> reg_op list \<Rightarrow> string \<Rightarrow> nat \<Rightarrow> bool" where
  "countWithin rm [] roomId n = (getRoomUserCount rm roomId \<le> n)"
| "countWithin rm (a # as) roomId n =
     (getRoomUserCount rm roomId \<le> n \<and>
      (case reg_exec rm a of None \<Rightarrow> True | Some rm' \<Rightarrow> countWithin rm' as roomId n))"

text \<open>The members of a room as \<open>getRoomUsers\<close> lists them: socket id and colour.\<close>

definition members :: "string \<Rightarrow> RoomManager \<Rightarrow> (string \<times> string) list" where
  "members roomId rm = map (\<lambda>u. (socketId_u u, color_u u)) (getRoomUsers rm roomId)"

text \<open>
  A sequence in which every join comes from a socket that is not registered at that
  moment.
\<close>

fun freshJoins :: "RoomManager \<Rightarrow> reg_op list \<Rightarrow> bool" where
  "freshJoins rm [] = True"
| "freshJoins rm (a # as) =
     ((case a of Join socketId roomId now random \<Rightarrow> users rm socketId = None | Leave socketId \<Rightarrow> True)
      \<and> (case reg_exec rm a of None \<Rightarrow> True | Some rm' \<Rightarrow> freshJoins rm' as))"

text \<open>The colour that the registry holds for a socket.\<close>

definition colorOf :: "RoomManager \<Rightarrow> string \<Rightarrow> string" where
  "colorOf rm socketId = (case users rm socketId of None \<Rightarrow> [] | Some u \<Rightarrow> color_u u)"

text \<open>
  The registry is consistent: a room has a socket set exactly when it has a colour set,
  every registered user is in the socket set of its room, and a socket set has no
  duplicates and holds only registered users of that room.
\<close>

definition reg_inv :: "RoomManager \<Rightarrow> bool" where
  "reg_inv rm =
     ((\<forall>r. (rooms rm r = None) = (roomColors rm r = None))
      \<and> (\<forall>s u. users rm s = Some u \<longrightarrow> (\<exists>ss. rooms rm (roomId_u u) = Some ss \<and> s \<in> set ss))
      \<and> (\<forall>r ss. rooms rm r = Some ss \<longrightarrow>
            distinct ss \<and> (\<forall>s \<in> set ss. \<exists>u. users rm s = Some u \<and> roomId_u u = r)))"

text \<open>
  In room \<open>r\<close> the members have pairwise different colours, and the colour set of the
  room is the set of the colours of its members.
\<close>

definition color_inv :: "string \<Rightarrow> RoomManager \<Rightarrow> bool" where
  "color_inv r rm =
     (\<forall>ss cs. rooms rm r = Some ss \<and> roomColors rm r = Some cs \<longrightarrow>
        distinct (map (colorOf rm) ss) \<and> set cs = colorOf rm ` set ss)"

text \<open>The colour that \<open>addUser\<close> assigns when the room's colour set is \<open>usedColors\<close>.\<close>

definition pick :: "string list \<Rightarrow> real \<Rightarrow> string" where
  "pick usedColors random =
     (case find (\<lambda>color. color \<notin> set usedColors) USER_COLORS of
        Some color \<Rightarrow> color
      | None \<Rightarrow> USER_COLORS ! nat \<lfloor>random * real (length USER_COLORS)\<rfloor>)"

section \<open>The socket handlers of the server\<close>

text \<open>
  What a handler does to the transport: subscribe the socket to a room, or emit an
  event to the calling socket (\<open>socket.emit\<close>), to every socket of a room
  (\<open>io.to(roomId).emit\<close>), or to every socket of a room but the caller
  (\<open>socket.to(roomId).emit\<close>).
\<close>

datatype target = ToSocket | ToRoom string | ToOthers string

datatype event =
    Error_ev string
  | User_info string string
  | Existing_users "(string \<times> string) list"
  | User_joined string string nat
  | Full_state_sync fullState
  | Stroke_start stroke string
  | Stroke_update string string real real
  | Stroke_end string string
  | Undo_ev string string string
  | Redo_ev string string stroke
  | User_left string nat

datatype action = SocketJoin string | Emit target event

record server =
  roomManager :: RoomManager
  drawingStateManager :: DrawingStateManager

definition constructor_server :: server where
  "constructor_server = \<lparr>roomManager = constructor_rm, drawingStateManager = constructor_dsm\<rparr>"

text \<open>
  Each handler takes the server, \<open>socket.id\<close>, the fields of the payload (a missing
  string field is \<open>None\<close>) and the clock and random readings it consumes; it returns
  the actions in the order of the source and the server it leaves, or \<open>None\<close> when
  the registry raised.
\<close>

definition on_join_room ::
  "server \<Rightarrow> string \<Rightarrow> string option \<Rightarrow> nat \<Rightarrow> real \<Rightarrow> (action list \<times> server) option" where
  "on_join_room sv socketId roomId now random =
     (if falsy roomId then Some ([Emit ToSocket (Error_ev ''Room ID is required'')], sv)
      else
        (case addUser (roomManager sv) socketId (the roomId) now random of
           None \<Rightarrow> None
         | Some (user, rm) \<Rightarrow>
             (let existingUsers =
                    filter (\<lambda>u. userId_u u \<noteq> userId_u user) (getRoomUsers rm (the roomId));
                  (fullState, dsm) = getFullState (drawingStateManager sv) (the roomId)
              in Some
                   ([SocketJoin (the roomId),
                     Emit ToSocket (User_info (userId_u user) (color_u user)),
                     Emit ToSocket (Existing_users (map (\<lambda>u. (userId_u u, color_u u)) existingUsers)),
                     Emit (ToOthers (the roomId))
                       (User_joined (userId_u user) (color_u user) (getRoomUserCount rm (the roomId))),
                     Emit ToSocket (Full_state_sync fullState)],
                    \<lparr>roomManager = rm, drawingStateManager = dsm\<rparr>))))"


definition on_stroke_update ::
  "server \<Rightarrow> string \<Rightarrow> string option \<Rightarrow> string option \<Rightarrow> real \<Rightarrow> real \<Rightarrow> action list \<times> server" where
  "on_stroke_update sv socketId roomId strokeId x y =
     (if falsy roomId \<or> falsy strokeId then ([], sv)
      else
        (let (updated, dsm) =
               updateStroke (drawingStateManager sv) (the roomId) (the strokeId) x y
         in (if updated
             then [Emit (ToRoom (the roomId)) (Stroke_update (the roomId) (the strokeId) x y)]
             else [],
             sv\<lparr>drawingStateManager := dsm\<rparr>)))"

definition on_stroke_end ::
  "server \<Rightarrow> string \<Rightarrow> string option \<Rightarrow> string option \<Rightarrow> action list \<times> server" where
  "on_stroke_end sv socketId roomId strokeId =
     (if falsy roomId \<or> falsy strokeId then ([], sv)
      else
        ([Emit (ToRoom (the roomId)) (Stroke_end (the roomId) (the strokeId))],
         sv\<lparr>drawingStateManager :=
               finalizeStroke (drawingStateManager sv) (the roomId) (the strokeId)\<rparr>))"

definition on_undo :: "server \<Rightarrow> string \<Rightarrow> string option \<Rightarrow> action list \<times> server" where
  "on_undo sv socketId roomId =
     (if falsy roomId then ([], sv)
      else
        (case getUser (roomManager sv) socketId of
           None \<Rightarrow> ([], sv)
         | Some user \<Rightarrow>
             (let (undoneStroke, dsm) =
                    undo (drawingStateManager sv) (the roomId) (userId_u user)
              in ((case undoneStroke of
                     None \<Rightarrow> []
                   | Some s \<Rightarrow>
                       [Emit (ToRoom (the roomId)) (Undo_ev (the roomId) (userId_u user) (id_s s))]),
                  sv\<lparr>drawingStateManager := dsm\<rparr>))))"

definition on_redo :: "server \<Rightarrow> string \<Rightarrow> string option \<Rightarrow> action list \<times> server" where
  "on_redo sv socketId roomId =
     (if falsy roomId then ([], sv)
      else
        (case getUser (roomManager sv) socketId of
           None \<Rightarrow> ([], sv)
         | Some user \<Rightarrow>
             (let (redoneStroke, dsm) =
                    redo (drawingStateManager sv) (the roomId) (userId_u user)
              in ((case redoneStroke of
                     None \<Rightarrow> []
                   | Some s \<Rightarrow>
                       [Emit (ToRoom (the roomId)) (Redo_ev (the roomId) (userId_u user) s)]),
                  sv\<lparr>drawingStateManager := dsm\<rparr>))))"

definition on_disconnect :: "server \<Rightarrow> string \<Rightarrow> (action list \<times> server) option" where
  "on_disconnect sv socketId =
     (case getUser (roomManager sv) socketId of
        None \<Rightarrow> Some ([], sv)
      | Some user \<Rightarrow>
          (case removeUser (roomManager sv) socketId of
             None \<Rightarrow> None
           | Some rm \<Rightarrow>
               Some ([Emit (ToOthers (roomId_u user))
                        (User_left (userId_u user) (getRoomUserCount rm (roomId_u user)))],
                     sv\<lparr>roomManager := rm\<rparr>)))"


section \<open>Predicates and examples used in the statements\<close>

text \<open>
  A stroke id minted while the counter was at most \<open>c\<close>: it has the shape that
  \<open>_generateStrokeId\<close> prints, with a counter part not above \<open>c\<close>.
\<close>

definition idBound :: "nat \<Rightarrow> string \<Rightarrow> bool" where
  "idBound c sid = (\<exists>n t. n \<le> c \<and> sid = ''stroke_'' @ dec n @ ''_'' @ dec t)"

text \<open>The ids on a user's undo stack, none when the user has no stack.\<close>

definition stackIds :: "roomState \<Rightarrow> string \<Rightarrow> string list" where
  "stackIds rs u = (case undoStacks rs u of None \<Rightarrow> [] | Some st \<Rightarrow> map id_s st)"

text \<open>
  The invariant of one room under counter \<open>c\<close>: every id was minted under \<open>c\<close>, no id
  occurs twice in the timeline or twice on a stack, no id is both in the timeline and
  on a stack, and no id is on the stacks of two users.
\<close>

definition room_inv :: "nat \<Rightarrow> roomState \<Rightarrow> bool" where
  "room_inv c rs =
     ((\<forall>a \<in> set (map id_s (strokes rs)). idBound c a)
      \<and> (\<forall>u. \<forall>a \<in> set (stackIds rs u). idBound c a)
      \<and> distinct (map id_s (strokes rs))
      \<and> (\<forall>u. distinct (stackIds rs u) \<and> set (stackIds rs u) \<inter> set (map id_s (strokes rs)) = {})
      \<and> (\<forall>u v. u \<noteq> v \<longrightarrow> set (stackIds rs u) \<inter> set (stackIds rs v) = {}))"

definition store_inv :: "DrawingStateManager \<Rightarrow> bool" where
  "store_inv m = (\<forall>r rs. roomStates m r = Some rs \<longrightarrow> room_inv (strokeIdCounter m) rs)"

text \<open>Two stroke payloads of two users, and small stores built from them.\<close>

definition strokeDataA :: strokeData where
  "strokeDataA = \<lparr>userId_d = ''user_1_5'', timestamp_d = Some 10, type_d = Some ''draw'',
                   color_d = Some ''#000000'', size_d = 5, path_d = [Point 0 0]\<rparr>"

definition strokeDataB :: strokeData where
  "strokeDataB = \<lparr>userId_d = ''user_2_6'', timestamp_d = Some 20, type_d = None,
                   color_d = None, size_d = 8, path_d = [Point 7 7]\<rparr>"

definition one_point_store :: DrawingStateManager where
  "one_point_store = snd (addStroke constructor_dsm ''room'' strokeDataA 11 12)"

definition one_point_stroke :: stroke where
  "one_point_stroke = fst (addStroke constructor_dsm ''room'' strokeDataA 11 12)"


definition undone_store :: DrawingStateManager where
  "undone_store =
     run constructor_dsm
       [AddStroke ''room'' strokeDataA 11 12, AddStroke ''room'' strokeDataB 13 14,
        AddStroke ''room'' strokeDataA 15 16, Undo ''room'' ''user_1_5'',
        Undo ''room'' ''user_2_6'']"

text \<open>A timeline of five strokes in which the last stroke of the first user is the third.\<close>

definition five_stroke_store :: DrawingStateManager where
  "five_stroke_store =
     run constructor_dsm
       [AddStroke ''room'' strokeDataA 11 12, AddStroke ''room'' strokeDataB 13 14,
        AddStroke ''room'' strokeDataA 15 16, AddStroke ''room'' strokeDataB 17 18,
        AddStroke ''room'' strokeDataB 19 20]"

text \<open>
  Ten \<open>join-room\<close> events of one socket for the same room, then the join of a second
  socket while \<open>Math.random()\<close> returns 0.9.
\<close>

definition reused_socket_joins :: "reg_op list" where
  "reused_socket_joins = replicate 10 (Join ''s1'' ''R'' 100 0) @ [Join ''s2'' ''R'' 200 (9 / 10)]"

text \<open>Joins of sockets that are not registered, with a leave in between.\<close>

definition fresh_socket_joins :: "reg_op list" where
  "fresh_socket_joins =
     [Join ''s1'' ''R'' 100 0, Join ''s2'' ''R'' 200 0, Leave ''s1'', Join ''s3'' ''R'' 300 0]"

text \<open>
  A server on which socket \<open>s1\<close> joined room \<open>R\<close>, then started a stroke, then
  disconnected.
\<close>

definition joined_server :: server where
  "joined_server = snd (the (on_join_room constructor_server ''s1'' (Some ''R'') 100 0))"



text \<open>
  A server on which socket \<open>s1\<close>, already a member of room \<open>R\<close>, joined room \<open>Q\<close> as
  well.
\<close>

definition moved_server :: server where
  "moved_server =
     snd (the (on_join_room joined_server ''s1'' (Some ''Q'') 105 0))"

section \<open>Lemmas about the helpers\<close>

lemma findIndex_None: "findIndex P xs = None \<longleftrightarrow> (\<forall>a \<in> set xs. \<not> P a)"
  by (induction xs) auto

lemma findIndex_Some:
  "findIndex P xs = Some i \<Longrightarrow> i < length xs \<and> P (xs ! i) \<and> (\<forall>j<i. \<not> P (xs ! j))"
proof (induction xs arbitrary: i)
  case Nil
  then show ?case by simp
next
  case (Cons a as)
  show ?case
  proof (cases "P a")
    case True
    with Cons.prems show ?thesis by simp
  next
    case False
    with Cons.prems obtain k where k: "findIndex P as = Some k" "i = Suc k"
      by auto
    from Cons.IH[OF k(1)] False k(2) show ?thesis
      by (auto simp: nth_Cons split: nat.splits)
  qed
qed

lemma copy_stroke:
  "\<lparr>id_s = id_s s, userId_s = userId_s s, timestamp_s = timestamp_s s, type_s = type_s s,
    color_s = color_s s, size_s = size_s s, path_s = path_s s\<rparr> = (s::stroke)"
  by simp

lemma lastIndexFrom_None:
  "lastIndexFrom ss u k = None \<longleftrightarrow> (\<forall>j<k. userId_s (ss ! j) \<noteq> u)"
  by (induction k) (auto simp: less_Suc_eq)

lemma lastIndexFrom_Some:
  "lastIndexFrom ss u k = Some i \<Longrightarrow>
     i < k \<and> userId_s (ss ! i) = u \<and> (\<forall>j. i < j \<and> j < k \<longrightarrow> userId_s (ss ! j) \<noteq> u)"
proof (induction k)
  case 0
  then show ?case by simp
next
  case (Suc k)
  show ?case
  proof (cases "userId_s (ss ! k) = u")
    case True
    with Suc.prems show ?thesis by auto
  next
    case False
    with Suc.prems have "lastIndexFrom ss u k = Some i" by simp
    from Suc.IH[OF this] False show ?thesis
      by (auto simp: less_Suc_eq)
  qed
qed

lemma lastIndexFrom_split:
  assumes "lastIndexFrom ss u (length ss) = Some i"
  shows "ss = take i ss @ (ss ! i) # drop (Suc i) ss"
    and "userId_s (ss ! i) = u"
    and "\<forall>t \<in> set (drop (Suc i) ss). userId_s t \<noteq> u"
proof -
  from lastIndexFrom_Some[OF assms]
  have i: "i < length ss" and u: "userId_s (ss ! i) = u"
    and later: "\<forall>j. i < j \<and> j < length ss \<longrightarrow> userId_s (ss ! j) \<noteq> u"
    by auto
  from i show "ss = take i ss @ (ss ! i) # drop (Suc i) ss"
    by (simp add: id_take_nth_drop)
  from u show "userId_s (ss ! i) = u" .
  show "\<forall>t \<in> set (drop (Suc i) ss). userId_s t \<noteq> u"
  proof
    fix t assume "t \<in> set (drop (Suc i) ss)"
    then obtain k where "k < length ss - Suc i" "t = ss ! (Suc i + k)"
      by (auto simp: in_set_conv_nth)
    with later show "userId_s t \<noteq> u" by auto
  qed
qed

subsection \<open>Decimal printing is injective\<close>

lemma of_char_digit: "a < 10 \<Longrightarrow> (of_char (digit a) :: nat) = 48 + a"
  by (simp add: digit_def)

lemma digit_eq_iff: "a < 10 \<Longrightarrow> b < 10 \<Longrightarrow> digit a = digit b \<longleftrightarrow> a = b"
proof
  assume a: "a < 10" and b: "b < 10" and e: "digit a = digit b"
  from e have "of_char (digit a) = (of_char (digit b) :: nat)" by (rule arg_cong)
  then show "a = b" unfolding of_char_digit[OF a] of_char_digit[OF b] by simp
next
  assume "a = b" then show "digit a = digit b" by (rule arg_cong)
qed

lemma digit_not_underscore: "a < 10 \<Longrightarrow> digit a \<noteq> CHR ''_''"
proof
  assume a: "a < 10" and e: "digit a = CHR ''_''"
  from e have "of_char (digit a) = (of_char (CHR ''_'') :: nat)" by (rule arg_cong)
  then show False unfolding of_char_digit[OF a] using a by simp
qed

lemma dec_small: "n < 10 \<Longrightarrow> dec n = [digit n]"
  by (subst dec.simps) simp

lemma dec_large: "\<not> n < 10 \<Longrightarrow> dec n = dec (n div 10) @ [digit (n mod 10)]"
  by (subst dec.simps) simp

lemma dec_not_Nil: "dec n \<noteq> []"
proof (cases "n < 10")
  case True
  show ?thesis unfolding dec_small[OF True] by simp
next
  case False
  show ?thesis unfolding dec_large[OF False] by simp
qed

lemma dec_no_underscore: "CHR ''_'' \<notin> set (dec n)"
proof (induction n rule: dec.induct)
  case (1 n)
  show ?case
  proof (cases "n < 10")
    case True
    from digit_not_underscore[OF True] show ?thesis
      unfolding dec_small[OF True] by simp
  next
    case False
    have "n mod 10 < 10" by simp
    from digit_not_underscore[OF this] "1.IH"[OF False] show ?thesis
      unfolding dec_large[OF False] by simp
  qed
qed

lemma dec_inj: "dec n = dec k \<Longrightarrow> n = k"
proof (induction n arbitrary: k rule: dec.induct)
  case (1 n)
  show ?case
  proof (cases "n < 10")
    case True
    show ?thesis
    proof (cases "k < 10")
      case k: True
      from "1.prems" have "[digit n] = [digit k]"
        unfolding dec_small[OF True] dec_small[OF k] .
      with True k show ?thesis by (simp add: digit_eq_iff)
    next
      case False
      from "1.prems" have "[digit n] = dec (k div 10) @ [digit (k mod 10)]"
        unfolding dec_small[OF True] dec_large[OF False] .
      with dec_not_Nil[of "k div 10"] show ?thesis by simp
    qed
  next
    case False
    show ?thesis
    proof (cases "k < 10")
      case True
      from "1.prems" have "dec (n div 10) @ [digit (n mod 10)] = [digit k]"
        unfolding dec_small[OF True] dec_large[OF False] .
      with dec_not_Nil[of "n div 10"] show ?thesis by simp
    next
      case k: False
      from "1.prems" have "dec (n div 10) @ [digit (n mod 10)] = dec (k div 10) @ [digit (k mod 10)]"
        unfolding dec_large[OF False] dec_large[OF k] .
      then have e: "dec (n div 10) = dec (k div 10)" and d: "digit (n mod 10) = digit (k mod 10)"
        by simp_all
      from "1.IH"[OF False e] have q: "n div 10 = k div 10" .
      have "n mod 10 < 10" "k mod 10 < 10" by simp_all
      with d have r: "n mod 10 = k mod 10" by (simp add: digit_eq_iff)
      have "n = n div 10 * 10 + n mod 10" by simp
      also have "\<dots> = k div 10 * 10 + k mod 10" by (simp only: q r)
      also have "\<dots> = k" by simp
      finally show ?thesis .
    qed
  qed
qed

lemma split_at_sep:
  assumes "c \<notin> set xs" "c \<notin> set xs'" "xs @ c # ys = xs' @ c # ys'"
  shows "xs = xs'"
proof -
  have tw: "c \<notin> set zs \<Longrightarrow> takeWhile (\<lambda>a. a \<noteq> c) (zs @ c # ws) = zs" for zs ws
    by (induction zs) auto
  from tw[OF assms(1), of ys] tw[OF assms(2), of ys'] assms(3) show ?thesis by simp
qed

lemma stroke_id_counter:
  assumes "''stroke_'' @ dec a @ ''_'' @ dec b = ''stroke_'' @ dec a' @ ''_'' @ dec b'"
  shows "a = a'"
proof -
  from assms have "dec a @ CHR ''_'' # dec b = dec a' @ CHR ''_'' # dec b'" by simp
  from split_at_sep[OF dec_no_underscore dec_no_underscore this] show ?thesis
    by (rule dec_inj)
qed

section \<open>Lemmas about the stroke store\<close>

lemma addStroke_room:
  "roomStates (snd (addStroke m r d n1 n2)) r =
     Some \<lparr>strokes = (case roomStates m r of None \<Rightarrow> [] | Some rs \<Rightarrow> strokes rs)
                       @ [fst (addStroke m r d n1 n2)],
           undoStacks = (case roomStates m r of None \<Rightarrow> Map.empty | Some rs \<Rightarrow> undoStacks rs)
                          (userId_d d := None)\<rparr>"
  by (cases "roomStates m r") (simp_all add: addStroke_def getRoomState_def generateStrokeId_def Let_def)

lemma addStroke_other_room:
  "r' \<noteq> r \<Longrightarrow> roomStates (snd (addStroke m r d n1 n2)) r' = roomStates m r'"
  by (cases "roomStates m r") (simp_all add: addStroke_def getRoomState_def generateStrokeId_def Let_def)

lemma addStroke_counter:
  "strokeIdCounter (snd (addStroke m r d n1 n2)) = Suc (strokeIdCounter m)"
  by (cases "roomStates m r") (simp_all add: addStroke_def getRoomState_def generateStrokeId_def Let_def)

lemma addStroke_id:
  "id_s (fst (addStroke m r d n1 n2)) = ''stroke_'' @ dec (Suc (strokeIdCounter m)) @ ''_'' @ dec n1"
  by (cases "roomStates m r") (simp_all add: addStroke_def getRoomState_def generateStrokeId_def Let_def)

lemma getFullState_strokes: "strokes_f (fst (getFullState m r)) = timeline m r"
  by (cases "roomStates m r") (simp_all add: getFullState_def timeline_def copy_stroke)

lemma undo_None:
  "fst (undo m r a) = None \<Longrightarrow> snd (undo m r a) = m"
  by (auto simp: undo_def Let_def split: option.splits)

lemma undo_Some:
  assumes "fst (undo m r a) = Some s"
  shows "\<exists>rs i. roomStates m r = Some rs \<and> lastIndexFrom (strokes rs) a (length (strokes rs)) = Some i
           \<and> s = strokes rs ! i
           \<and> snd (undo m r a) = m\<lparr>roomStates := (roomStates m)(r \<mapsto>
                 \<lparr>strokes = take i (strokes rs) @ drop (Suc i) (strokes rs),
                  undoStacks = (undoStacks rs)(a \<mapsto>
                     (case undoStacks rs a of None \<Rightarrow> [] | Some stack \<Rightarrow> stack) @ [s])\<rparr>)\<rparr>"
  using assms by (auto simp: undo_def Let_def split: option.splits)

lemma undo_other_room: "r' \<noteq> r \<Longrightarrow> roomStates (snd (undo m r a)) r' = roomStates m r'"
  by (auto simp: undo_def Let_def split: option.splits)

lemma undo_split:
  assumes "fst (undo m r a) = Some s"
  shows "\<exists>xs ys. timeline m r = xs @ s # ys \<and> timeline (snd (undo m r a)) r = xs @ ys
           \<and> userId_s s = a \<and> (\<forall>t \<in> set ys. userId_s t \<noteq> a)"
proof -
  from undo_Some[OF assms] obtain rs i where
    rs: "roomStates m r = Some rs"
    and i: "lastIndexFrom (strokes rs) a (length (strokes rs)) = Some i"
    and s: "s = strokes rs ! i"
    and m': "snd (undo m r a) = m\<lparr>roomStates := (roomStates m)(r \<mapsto>
                 \<lparr>strokes = take i (strokes rs) @ drop (Suc i) (strokes rs),
                  undoStacks = (undoStacks rs)(a \<mapsto>
                     (case undoStacks rs a of None \<Rightarrow> [] | Some stack \<Rightarrow> stack) @ [s])\<rparr>)\<rparr>"
    by blast
  note sp = lastIndexFrom_split[OF i]
  have "timeline m r = take i (strokes rs) @ s # drop (Suc i) (strokes rs)"
    using sp(1) rs s by (simp add: timeline_def)
  moreover have "timeline (snd (undo m r a)) r = take i (strokes rs) @ drop (Suc i) (strokes rs)"
    by (simp add: m' timeline_def)
  moreover have "userId_s s = a" using sp(2) s by simp
  ultimately show ?thesis using sp(3) by blast
qed







lemma undo_finds:
  assumes "u \<in> userId_s ` set (timeline m r)"
  shows "\<exists>s. fst (undo m r u) = Some s"
proof (cases "roomStates m r")
  case None
  with assms show ?thesis by (simp add: timeline_def)
next
  case (Some rs)
  with assms obtain j where "j < length (strokes rs)" "userId_s (strokes rs ! j) = u"
    by (auto simp: timeline_def in_set_conv_nth)
  then have "lastIndexFrom (strokes rs) u (length (strokes rs)) \<noteq> None"
    by (auto simp: lastIndexFrom_None)
  with Some show ?thesis
    by (auto simp: undo_def Let_def split: option.splits)
qed

lemma updateStroke_cases:
  "snd (updateStroke m r sid x y) = m \<or>
   (\<exists>rs i. roomStates m r = Some rs \<and> i < length (strokes rs) \<and>
      snd (updateStroke m r sid x y) = m\<lparr>roomStates := (roomStates m)(r \<mapsto>
         rs\<lparr>strokes := (strokes rs)[i := (strokes rs ! i)\<lparr>path_s := path_s (strokes rs ! i) @ [Point x y]\<rparr>]\<rparr>)\<rparr>)"
proof (cases "roomStates m r")
  case None
  then show ?thesis by (simp add: updateStroke_def)
next
  case (Some rs)
  show ?thesis
  proof (cases "findIndex (\<lambda>s. id_s s = sid) (strokes rs)")
    case None
    with Some show ?thesis by (simp add: updateStroke_def)
  next
    case (Some i)
    from findIndex_Some[OF Some] have i: "i < length (strokes rs)" by simp
    have "snd (updateStroke m r sid x y) = m\<lparr>roomStates := (roomStates m)(r \<mapsto>
         rs\<lparr>strokes := (strokes rs)[i := (strokes rs ! i)\<lparr>path_s := path_s (strokes rs ! i) @ [Point x y]\<rparr>]\<rparr>)\<rparr>"
      using Some \<open>roomStates m r = Some rs\<close> by (simp add: updateStroke_def Let_def)
    with i \<open>roomStates m r = Some rs\<close> show ?thesis by blast
  qed
qed

lemma redo_cases:
  "snd (redo m r u) = m \<or>
   (\<exists>rs st s. roomStates m r = Some rs \<and> undoStacks rs u = Some (st @ [s]) \<and>
      snd (redo m r u) = m\<lparr>roomStates := (roomStates m)(r \<mapsto>
         \<lparr>strokes = strokes rs @ [s],
          undoStacks = (if st = [] then (undoStacks rs)(u := None)
                        else (undoStacks rs)(u \<mapsto> st))\<rparr>)\<rparr>)"
proof (cases "roomStates m r")
  case None
  then show ?thesis by (simp add: redo_def)
next
  case (Some rs)
  show ?thesis
  proof (cases "undoStacks rs u")
    case None
    with Some show ?thesis by (simp add: redo_def)
  next
    case stack: (Some stack)
    show ?thesis
    proof (cases "stack = []")
      case True
      with Some stack show ?thesis by (simp add: redo_def)
    next
      case False
      then obtain st s where ss: "stack = st @ [s]" by (cases stack rule: rev_cases) auto
      have "snd (redo m r u) = m\<lparr>roomStates := (roomStates m)(r \<mapsto>
         \<lparr>strokes = strokes rs @ [s],
          undoStacks = (if st = [] then (undoStacks rs)(u := None)
                        else (undoStacks rs)(u \<mapsto> st))\<rparr>)\<rparr>"
        using Some stack by (simp add: redo_def Let_def ss)
      with Some stack ss show ?thesis by blast
    qed
  qed
qed

lemma clearRoom_lookup: "roomStates (clearRoom m r) r = None"
  by (simp add: clearRoom_def)

subsection \<open>The invariant of the store\<close>

lemma idBound_mono: "idBound c a \<Longrightarrow> c \<le> c' \<Longrightarrow> idBound c' a"
  unfolding idBound_def using le_trans by blast

lemma idBound_fresh: "\<not> idBound c (''stroke_'' @ dec (Suc c) @ ''_'' @ dec t)"
proof
  assume "idBound c (''stroke_'' @ dec (Suc c) @ ''_'' @ dec t)"
  then obtain n t' where n: "n \<le> c"
    and e: "''stroke_'' @ dec (Suc c) @ ''_'' @ dec t = ''stroke_'' @ dec n @ ''_'' @ dec t'"
    unfolding idBound_def by blast
  from stroke_id_counter[OF e] n show False by simp
qed

lemma room_inv_mono: "room_inv c rs \<Longrightarrow> c \<le> c' \<Longrightarrow> room_inv c' rs"
  unfolding room_inv_def by (meson idBound_mono)

lemma room_inv_empty: "room_inv c \<lparr>strokes = [], undoStacks = Map.empty\<rparr>"
  by (simp add: room_inv_def stackIds_def)

lemma room_inv_add:
  assumes inv: "room_inv c rs" and s: "id_s s = ''stroke_'' @ dec (Suc c) @ ''_'' @ dec t"
  shows "room_inv (Suc c) \<lparr>strokes = strokes rs @ [s], undoStacks = (undoStacks rs)(u := None)\<rparr>"
proof -
  let ?rs' = "\<lparr>strokes = strokes rs @ [s], undoStacks = (undoStacks rs)(u := None)\<rparr>"
  have fresh: "\<not> idBound c (id_s s)" unfolding s by (rule idBound_fresh)
  have new: "idBound (Suc c) (id_s s)" unfolding s idBound_def by blast
  have stk: "stackIds ?rs' v = (if v = u then [] else stackIds rs v)" for v
    by (simp add: stackIds_def)
  from inv have b1: "\<forall>a \<in> set (map id_s (strokes rs)). idBound c a"
    and b2: "\<And>v. \<forall>a \<in> set (stackIds rs v). idBound c a"
    and d1: "distinct (map id_s (strokes rs))"
    and d2: "\<And>v. distinct (stackIds rs v)"
    and d3: "\<And>v. set (stackIds rs v) \<inter> set (map id_s (strokes rs)) = {}"
    and d4: "\<And>v w. v \<noteq> w \<Longrightarrow> set (stackIds rs v) \<inter> set (stackIds rs w) = {}"
    unfolding room_inv_def by blast+
  have n1: "id_s s \<notin> set (map id_s (strokes rs))" using b1 fresh by blast
  have n2: "id_s s \<notin> set (stackIds rs v)" for v using b2 fresh by blast
  have "\<forall>a \<in> set (map id_s (strokes ?rs')). idBound (Suc c) a"
    using b1 new idBound_mono[of c _ "Suc c"] by auto
  moreover have "\<forall>v. \<forall>a \<in> set (stackIds ?rs' v). idBound (Suc c) a"
    using b2 idBound_mono[of c _ "Suc c"] by (simp add: stk)
  moreover have "distinct (map id_s (strokes ?rs'))" using d1 n1 by simp
  moreover have "\<forall>v. distinct (stackIds ?rs' v) \<and> set (stackIds ?rs' v) \<inter> set (map id_s (strokes ?rs')) = {}"
    using d2 d3 n2 by (auto simp: stk)
  moreover have "\<forall>v w. v \<noteq> w \<longrightarrow> set (stackIds ?rs' v) \<inter> set (stackIds ?rs' w) = {}"
    using d4 by (simp add: stk)
  ultimately show ?thesis unfolding room_inv_def by blast
qed

lemma room_inv_ids:
  assumes "map id_s (strokes rs') = map id_s (strokes rs)" "undoStacks rs' = undoStacks rs"
  shows "room_inv c rs' = room_inv c rs"
  using assms by (simp add: room_inv_def stackIds_def)

lemma map_id_update:
  "i < length ss \<Longrightarrow> map id_s (ss[i := (ss ! i)\<lparr>path_s := p\<rparr>]) = map id_s ss"
  by (simp add: map_update list_update_same_conv)

lemma room_inv_undo:
  assumes inv: "room_inv c rs" and sp: "strokes rs = xs @ s # ys"
  shows "room_inv c \<lparr>strokes = xs @ ys,
           undoStacks = (undoStacks rs)(u \<mapsto>
             (case undoStacks rs u of None \<Rightarrow> [] | Some st \<Rightarrow> st) @ [s])\<rparr>"
proof -
  let ?rs' = "\<lparr>strokes = xs @ ys,
           undoStacks = (undoStacks rs)(u \<mapsto>
             (case undoStacks rs u of None \<Rightarrow> [] | Some st \<Rightarrow> st) @ [s])\<rparr>"
  have stk: "stackIds ?rs' v = (if v = u then stackIds rs u @ [id_s s] else stackIds rs v)" for v
    by (simp add: stackIds_def split: option.splits)
  have tl: "map id_s (strokes rs) = map id_s xs @ id_s s # map id_s ys" by (simp add: sp)
  from inv have b1: "\<forall>a \<in> set (map id_s (strokes rs)). idBound c a"
    and b2: "\<And>v. \<forall>a \<in> set (stackIds rs v). idBound c a"
    and d1: "distinct (map id_s (strokes rs))"
    and d2: "\<And>v. distinct (stackIds rs v)"
    and d3: "\<And>v. set (stackIds rs v) \<inter> set (map id_s (strokes rs)) = {}"
    and d4: "\<And>v w. v \<noteq> w \<Longrightarrow> set (stackIds rs v) \<inter> set (stackIds rs w) = {}"
    unfolding room_inv_def by blast+
  have "\<forall>a \<in> set (map id_s (strokes ?rs')). idBound c a"
    using b1 by (auto simp: tl)
  moreover have "\<forall>v. \<forall>a \<in> set (stackIds ?rs' v). idBound c a"
    using b1 b2 by (auto simp: stk tl)
  moreover have "distinct (map id_s (strokes ?rs'))" using d1 by (simp add: tl)
  moreover have "\<forall>v. distinct (stackIds ?rs' v) \<and> set (stackIds ?rs' v) \<inter> set (map id_s (strokes ?rs')) = {}"
    using d1 d2 d3 by (auto simp: stk tl)
  moreover have "\<forall>v w. v \<noteq> w \<longrightarrow> set (stackIds ?rs' v) \<inter> set (stackIds ?rs' w) = {}"
    using d3 d4 by (auto simp: stk tl)
  ultimately show ?thesis unfolding room_inv_def by blast
qed

lemma room_inv_redo:
  assumes inv: "room_inv c rs" and st: "undoStacks rs u = Some (st @ [s])"
  shows "room_inv c \<lparr>strokes = strokes rs @ [s],
           undoStacks = (if st = [] then (undoStacks rs)(u := None)
                         else (undoStacks rs)(u \<mapsto> st))\<rparr>"
proof -
  let ?rs' = "\<lparr>strokes = strokes rs @ [s],
           undoStacks = (if st = [] then (undoStacks rs)(u := None)
                         else (undoStacks rs)(u \<mapsto> st))\<rparr>"
  have stk: "stackIds ?rs' v = (if v = u then map id_s st else stackIds rs v)" for v
    by (simp add: stackIds_def)
  have old: "stackIds rs u = map id_s st @ [id_s s]" by (simp add: stackIds_def st)
  from inv have b1: "\<forall>a \<in> set (map id_s (strokes rs)). idBound c a"
    and b2: "\<And>v. \<forall>a \<in> set (stackIds rs v). idBound c a"
    and d1: "distinct (map id_s (strokes rs))"
    and d2: "\<And>v. distinct (stackIds rs v)"
    and d3: "\<And>v. set (stackIds rs v) \<inter> set (map id_s (strokes rs)) = {}"
    and d4: "\<And>v w. v \<noteq> w \<Longrightarrow> set (stackIds rs v) \<inter> set (stackIds rs w) = {}"
    unfolding room_inv_def by blast+
  note bu = b2[of u, unfolded old] and du = d2[of u, unfolded old] and tu = d3[of u, unfolded old]
  have ou: "v \<noteq> u \<Longrightarrow> set (stackIds rs v) \<inter> set (map id_s st @ [id_s s]) = {}" for v
    using d4[of v u, unfolded old] by blast
  have "\<forall>a \<in> set (map id_s (strokes ?rs')). idBound c a"
    using b1 bu by auto
  moreover have "\<forall>v. \<forall>a \<in> set (stackIds ?rs' v). idBound c a"
    using b2 bu by (auto simp: stk)
  moreover have "distinct (map id_s (strokes ?rs'))" using d1 tu by auto
  moreover have "\<forall>v. distinct (stackIds ?rs' v) \<and> set (stackIds ?rs' v) \<inter> set (map id_s (strokes ?rs')) = {}"
  proof
    fix v
    show "distinct (stackIds ?rs' v) \<and> set (stackIds ?rs' v) \<inter> set (map id_s (strokes ?rs')) = {}"
    proof (cases "v = u")
      case True
      then show ?thesis using du tu by (auto simp: stk)
    next
      case False
      then show ?thesis using d2[of v] d3[of v] ou[OF False] by (auto simp: stk)
    qed
  qed
  moreover have "\<forall>v w. v \<noteq> w \<longrightarrow> set (stackIds ?rs' v) \<inter> set (stackIds ?rs' w) = {}"
  proof (intro allI impI)
    fix v w :: string assume vw: "v \<noteq> w"
    show "set (stackIds ?rs' v) \<inter> set (stackIds ?rs' w) = {}"
    proof (cases "v = u")
      case True
      with vw have "w \<noteq> u" by simp
      from ou[OF this] True vw show ?thesis by (auto simp: stk)
    next
      case False
      show ?thesis
      proof (cases "w = u")
        case True
        from ou[OF False] True False show ?thesis by (auto simp: stk)
      next
        case w: False
        with False d4[OF vw] show ?thesis by (simp add: stk)
      qed
    qed
  qed
  ultimately show ?thesis unfolding room_inv_def by blast
qed

lemma store_inv_init: "store_inv constructor_dsm"
  by (simp add: store_inv_def constructor_dsm_def)

lemma store_inv_add:
  assumes "store_inv m"
  shows "store_inv (snd (addStroke m r d n1 n2))"
  unfolding store_inv_def
proof (intro allI impI)
  fix r' rs'
  assume look: "roomStates (snd (addStroke m r d n1 n2)) r' = Some rs'"
  show "room_inv (strokeIdCounter (snd (addStroke m r d n1 n2))) rs'"
  proof (cases "r' = r")
    case False
    with look have "roomStates m r' = Some rs'" by (simp add: addStroke_other_room)
    with assms have "room_inv (strokeIdCounter m) rs'" by (simp add: store_inv_def)
    then show ?thesis unfolding addStroke_counter by (rule room_inv_mono) simp
  next
    case True
    define rs where "rs = (case roomStates m r of None \<Rightarrow> \<lparr>strokes = [], undoStacks = Map.empty\<rparr>
                            | Some a \<Rightarrow> a)"
    have inv: "room_inv (strokeIdCounter m) rs"
      using assms by (cases "roomStates m r") (simp_all add: rs_def room_inv_empty store_inv_def)
    from look True have "roomStates (snd (addStroke m r d n1 n2)) r = Some rs'" by simp
    then have "rs' = \<lparr>strokes = strokes rs @ [fst (addStroke m r d n1 n2)],
                 undoStacks = (undoStacks rs)(userId_d d := None)\<rparr>"
      unfolding addStroke_room rs_def
      by (cases "roomStates m r") auto
    then show ?thesis
      unfolding addStroke_counter using room_inv_add[OF inv addStroke_id] by simp
  qed
qed

lemma store_inv_update:
  assumes "store_inv m"
  shows "store_inv (snd (updateStroke m r sid x y))"
  using updateStroke_cases[of m r sid x y]
proof
  assume "snd (updateStroke m r sid x y) = m"
  with assms show ?thesis by simp
next
  assume "\<exists>rs i. roomStates m r = Some rs \<and> i < length (strokes rs) \<and>
      snd (updateStroke m r sid x y) = m\<lparr>roomStates := (roomStates m)(r \<mapsto>
         rs\<lparr>strokes := (strokes rs)[i := (strokes rs ! i)\<lparr>path_s := path_s (strokes rs ! i) @ [Point x y]\<rparr>]\<rparr>)\<rparr>"
  then obtain rs i where rs: "roomStates m r = Some rs" and i: "i < length (strokes rs)"
    and m': "snd (updateStroke m r sid x y) = m\<lparr>roomStates := (roomStates m)(r \<mapsto>
         rs\<lparr>strokes := (strokes rs)[i := (strokes rs ! i)\<lparr>path_s := path_s (strokes rs ! i) @ [Point x y]\<rparr>]\<rparr>)\<rparr>"
    by blast
  from assms rs have "room_inv (strokeIdCounter m) rs" by (simp add: store_inv_def)
  then have "room_inv (strokeIdCounter m)
     (rs\<lparr>strokes := (strokes rs)[i := (strokes rs ! i)\<lparr>path_s := path_s (strokes rs ! i) @ [Point x y]\<rparr>]\<rparr>)"
    by (subst room_inv_ids[where rs = rs]) (simp_all add: map_id_update[OF i])
  with assms show ?thesis unfolding m' store_inv_def by simp
qed

lemma store_inv_undo:
  assumes "store_inv m"
  shows "store_inv (snd (undo m r u))"
proof (cases "fst (undo m r u)")
  case None
  with assms show ?thesis by (simp add: undo_None)
next
  case (Some s)
  from undo_Some[OF Some] obtain rs i where
    rs: "roomStates m r = Some rs"
    and i: "lastIndexFrom (strokes rs) u (length (strokes rs)) = Some i"
    and s: "s = strokes rs ! i"
    and m': "snd (undo m r u) = m\<lparr>roomStates := (roomStates m)(r \<mapsto>
                 \<lparr>strokes = take i (strokes rs) @ drop (Suc i) (strokes rs),
                  undoStacks = (undoStacks rs)(u \<mapsto>
                     (case undoStacks rs u of None \<Rightarrow> [] | Some stack \<Rightarrow> stack) @ [s])\<rparr>)\<rparr>"
    by blast
  from lastIndexFrom_split(1)[OF i] s
  have sp: "strokes rs = take i (strokes rs) @ s # drop (Suc i) (strokes rs)" by simp
  from assms rs have "room_inv (strokeIdCounter m) rs" by (simp add: store_inv_def)
  from room_inv_undo[OF this sp, of u] assms show ?thesis
    unfolding m' store_inv_def by simp
qed

lemma store_inv_redo:
  assumes "store_inv m"
  shows "store_inv (snd (redo m r u))"
  using redo_cases[of m r u]
proof
  assume "snd (redo m r u) = m"
  with assms show ?thesis by simp
next
  assume "\<exists>rs st s. roomStates m r = Some rs \<and> undoStacks rs u = Some (st @ [s]) \<and>
      snd (redo m r u) = m\<lparr>roomStates := (roomStates m)(r \<mapsto>
         \<lparr>strokes = strokes rs @ [s],
          undoStacks = (if st = [] then (undoStacks rs)(u := None)
                        else (undoStacks rs)(u \<mapsto> st))\<rparr>)\<rparr>"
  then obtain rs st s where rs: "roomStates m r = Some rs"
    and st: "undoStacks rs u = Some (st @ [s])"
    and m': "snd (redo m r u) = m\<lparr>roomStates := (roomStates m)(r \<mapsto>
         \<lparr>strokes = strokes rs @ [s],
          undoStacks = (if st = [] then (undoStacks rs)(u := None)
                        else (undoStacks rs)(u \<mapsto> st))\<rparr>)\<rparr>"
    by blast
  from assms rs have "room_inv (strokeIdCounter m) rs" by (simp add: store_inv_def)
  from room_inv_redo[OF this st] assms show ?thesis
    unfolding m' store_inv_def by (simp split: if_splits)
qed

lemma store_inv_exec: "store_inv m \<Longrightarrow> store_inv (exec m a)"
  by (cases a) (simp_all add: store_inv_add store_inv_update store_inv_undo store_inv_redo)

lemma store_inv_run: "store_inv m \<Longrightarrow> store_inv (run m ops)"
  unfolding run_def by (induction ops arbitrary: m) (simp_all add: store_inv_exec)

section \<open>Lemmas about the registry and the handlers\<close>



lemma palette: "distinct USER_COLORS" "length USER_COLORS = 10"
  by (simp_all add: USER_COLORS_def)

lemma pick_fresh:
  assumes "card (set cs) < 10"
  shows "pick cs x \<notin> set cs"
proof -
  have "\<not> set USER_COLORS \<subseteq> set cs"
  proof
    assume "set USER_COLORS \<subseteq> set cs"
    then have "card (set USER_COLORS) \<le> card (set cs)" by (simp add: card_mono)
    with palette assms show False by (simp add: distinct_card)
  qed
  then obtain c where f: "find (\<lambda>color. color \<notin> set cs) USER_COLORS = Some c"
    by (cases "find (\<lambda>color. color \<notin> set cs) USER_COLORS") (auto simp: find_None_iff)
  then have "c \<notin> set cs" by (auto simp: find_Some_iff)
  moreover have "pick cs x = c" by (simp add: pick_def f)
  ultimately show ?thesis by simp
qed

lemma addUser_fields:
  assumes "(rooms rm r = None) = (roomColors rm r = None)"
  shows "\<exists>u rm'. addUser rm s r n x = Some (u, rm')
           \<and> roomId_u u = r
           \<and> color_u u = pick (case roomColors rm r of None \<Rightarrow> [] | Some cs \<Rightarrow> cs) x
           \<and> users rm' = (users rm)(s \<mapsto> u)
           \<and> rooms rm' = (rooms rm)(r \<mapsto> Set_add (case rooms rm r of None \<Rightarrow> [] | Some ss \<Rightarrow> ss) s)
           \<and> roomColors rm' = (roomColors rm)(r \<mapsto>
                 Set_add (case roomColors rm r of None \<Rightarrow> [] | Some cs \<Rightarrow> cs) (color_u u))"
proof (cases "rooms rm r")
  case None
  with assms have "roomColors rm r = None" by simp
  with None show ?thesis by (simp add: addUser_def Let_def pick_def)
next
  case (Some ss)
  with assms obtain cs where "roomColors rm r = Some cs" by auto
  with Some show ?thesis by (simp add: addUser_def Let_def pick_def)
qed

lemma removeUser_fields:
  assumes "users rm s = Some u" and "rooms rm (roomId_u u) = Some ss"
    and "(rooms rm (roomId_u u) = None) = (roomColors rm (roomId_u u) = None)"
  shows "\<exists>rm'. removeUser rm s = Some rm'
           \<and> users rm' = (users rm)(s := None)
           \<and> rooms rm' = (if removeAll s ss = [] then (rooms rm)(roomId_u u := None)
                          else (rooms rm)(roomId_u u \<mapsto> removeAll s ss))
           \<and> roomColors rm' =
                (if removeAll s ss = [] then (roomColors rm)(roomId_u u := None)
                 else (roomColors rm)(roomId_u u \<mapsto>
                        removeAll (color_u u) (the (roomColors rm (roomId_u u)))))"
proof -
  from assms(2,3) obtain cs where "roomColors rm (roomId_u u) = Some cs" by auto
  with assms(1,2) show ?thesis
    by (simp add: removeUser_def Set_delete_def)
qed

lemma removeUser_absent: "users rm s = None \<Longrightarrow> removeUser rm s = Some rm"
  by (simp add: removeUser_def)

lemma reg_invD:
  assumes "reg_inv rm"
  shows "(rooms rm r = None) = (roomColors rm r = None)"
    and "users rm s = Some u \<Longrightarrow> \<exists>ss. rooms rm (roomId_u u) = Some ss \<and> s \<in> set ss"
    and "rooms rm r = Some ss \<Longrightarrow> distinct ss"
    and "rooms rm r = Some ss \<Longrightarrow> s \<in> set ss \<Longrightarrow> \<exists>u. users rm s = Some u \<and> roomId_u u = r"
  using assms unfolding reg_inv_def by blast+

lemma fresh_not_member:
  assumes "reg_inv rm" "users rm s = None" "rooms rm r = Some ss"
  shows "s \<notin> set ss"
  using reg_invD(4)[OF assms(1,3), of s] assms(2) by auto

lemma reg_inv_join:
  assumes inv: "reg_inv rm" and fresh: "users rm s = None"
  shows "\<exists>u rm'. addUser rm s r n x = Some (u, rm') \<and> reg_inv rm'
           \<and> roomId_u u = r
           \<and> color_u u = pick (case roomColors rm r of None \<Rightarrow> [] | Some cs \<Rightarrow> cs) x
           \<and> users rm' = (users rm)(s \<mapsto> u)
           \<and> rooms rm' = (rooms rm)(r \<mapsto> (case rooms rm r of None \<Rightarrow> [] | Some ss \<Rightarrow> ss) @ [s])
           \<and> roomColors rm' = (roomColors rm)(r \<mapsto>
                 Set_add (case roomColors rm r of None \<Rightarrow> [] | Some cs \<Rightarrow> cs) (color_u u))"
proof -
  define ss where "ss = (case rooms rm r of None \<Rightarrow> [] | Some ss \<Rightarrow> ss)"
  have notin: "s \<notin> set ss"
    using fresh_not_member[OF inv fresh, of r] by (auto simp: ss_def split: option.splits)
  have dist: "distinct ss"
    using reg_invD(3)[OF inv, of r] by (auto simp: ss_def split: option.splits)
  have mem: "\<exists>v. users rm t = Some v \<and> roomId_u v = r" if t: "t \<in> set ss" for t
  proof -
    from t obtain l where l: "rooms rm r = Some l" and "ss = l"
      by (cases "rooms rm r") (auto simp: ss_def)
    with reg_invD(4)[OF inv l, of t] t show ?thesis by simp
  qed
  from addUser_fields[OF reg_invD(1)[OF inv, of r], of s n x]
  obtain u rm' where res: "addUser rm s r n x = Some (u, rm')"
    and ru: "roomId_u u = r"
    and cu: "color_u u = pick (case roomColors rm r of None \<Rightarrow> [] | Some cs \<Rightarrow> cs) x"
    and us: "users rm' = (users rm)(s \<mapsto> u)"
    and ro: "rooms rm' = (rooms rm)(r \<mapsto> Set_add ss s)"
    and co: "roomColors rm' = (roomColors rm)(r \<mapsto>
                 Set_add (case roomColors rm r of None \<Rightarrow> [] | Some cs \<Rightarrow> cs) (color_u u))"
    unfolding ss_def by blast
  have ro': "rooms rm' = (rooms rm)(r \<mapsto> ss @ [s])"
    using ro notin by (simp add: Set_add_def)
  have j1: "\<forall>q. (rooms rm' q = None) = (roomColors rm' q = None)"
    using reg_invD(1)[OF inv] by (simp add: ro' co)
  have j2: "\<forall>t v. users rm' t = Some v \<longrightarrow> (\<exists>l. rooms rm' (roomId_u v) = Some l \<and> t \<in> set l)"
  proof (intro allI impI)
    fix t v assume tv: "users rm' t = Some v"
    show "\<exists>l. rooms rm' (roomId_u v) = Some l \<and> t \<in> set l"
    proof (cases "t = s")
      case True
      with tv us have "v = u" by simp
      with ru True show ?thesis by (simp add: ro')
    next
      case False
      with tv us have old: "users rm t = Some v" by simp
      from reg_invD(2)[OF inv old] obtain l where l: "rooms rm (roomId_u v) = Some l" "t \<in> set l"
        by blast
      show ?thesis
      proof (cases "roomId_u v = r")
        case True
        with l have "ss = l" by (simp add: ss_def)
        with l True show ?thesis by (simp add: ro')
      next
        case False
        with l show ?thesis by (simp add: ro')
      qed
    qed
  qed
  have j3: "\<forall>q l. rooms rm' q = Some l \<longrightarrow>
              distinct l \<and> (\<forall>t \<in> set l. \<exists>v. users rm' t = Some v \<and> roomId_u v = q)"
  proof (intro allI impI)
    fix q l assume ql: "rooms rm' q = Some l"
    show "distinct l \<and> (\<forall>t \<in> set l. \<exists>v. users rm' t = Some v \<and> roomId_u v = q)"
    proof (cases "q = r")
      case True
      with ql ro' have l: "l = ss @ [s]" by simp
      have "distinct l" using dist notin by (simp add: l)
      moreover have "\<forall>t \<in> set l. \<exists>v. users rm' t = Some v \<and> roomId_u v = q"
        using mem ru True notin by (auto simp: l us)
      ultimately show ?thesis by blast
    next
      case False
      with ql ro' have old: "rooms rm q = Some l" by simp
      have "s \<notin> set l" by (rule fresh_not_member[OF inv fresh old])
      then have "\<forall>t \<in> set l. \<exists>v. users rm' t = Some v \<and> roomId_u v = q"
        using reg_invD(4)[OF inv old] by (auto simp: us)
      with reg_invD(3)[OF inv old] show ?thesis by blast
    qed
  qed
  from j1 j2 j3 have "reg_inv rm'" unfolding reg_inv_def by blast
  with res ru cu us ro' co show ?thesis unfolding ss_def by blast
qed

lemma colorOf_upd_other: "t \<noteq> s \<Longrightarrow> users rm' = (users rm)(s \<mapsto> u) \<Longrightarrow> colorOf rm' t = colorOf rm t"
  by (simp add: colorOf_def)

lemma color_inv_join:
  assumes inv: "reg_inv rm" and cinv: "color_inv q rm" and fresh: "users rm s = None"
    and ru: "roomId_u u = r"
    and cu: "color_u u = pick (case roomColors rm r of None \<Rightarrow> [] | Some cs \<Rightarrow> cs) x"
    and us: "users rm' = (users rm)(s \<mapsto> u)"
    and ro: "rooms rm' = (rooms rm)(r \<mapsto> (case rooms rm r of None \<Rightarrow> [] | Some ss \<Rightarrow> ss) @ [s])"
    and co: "roomColors rm' = (roomColors rm)(r \<mapsto>
                 Set_add (case roomColors rm r of None \<Rightarrow> [] | Some cs \<Rightarrow> cs) (color_u u))"
    and bound: "getRoomUserCount rm' q \<le> 10"
  shows "color_inv q rm'"
proof (cases "q = r")
  case False
  show ?thesis unfolding color_inv_def
  proof (intro allI impI)
    fix ss cs assume a: "rooms rm' q = Some ss \<and> roomColors rm' q = Some cs"
    with False ro co have old: "rooms rm q = Some ss" "roomColors rm q = Some cs" by simp_all
    have "s \<notin> set ss" by (rule fresh_not_member[OF inv fresh old(1)])
    then have same: "colorOf rm' t = colorOf rm t" if "t \<in> set ss" for t
      using that colorOf_upd_other[OF _ us, of t] by auto
    have m: "map (colorOf rm') ss = map (colorOf rm) ss"
      by (rule map_cong[OF refl]) (rule same)
    have i: "colorOf rm' ` set ss = colorOf rm ` set ss"
      by (rule image_cong[OF refl]) (rule same)
    from cinv old have "distinct (map (colorOf rm) ss) \<and> set cs = colorOf rm ` set ss"
      unfolding color_inv_def by blast
    then show "distinct (map (colorOf rm') ss) \<and> set cs = colorOf rm' ` set ss"
      unfolding m i .
  qed
next
  case True
  define ss where "ss = (case rooms rm r of None \<Rightarrow> [] | Some ss \<Rightarrow> ss)"
  define cs where "cs = (case roomColors rm r of None \<Rightarrow> [] | Some cs \<Rightarrow> cs)"
  have notin: "s \<notin> set ss"
    using fresh_not_member[OF inv fresh, of r] by (cases "rooms rm r") (simp_all add: ss_def)
  have old: "distinct (map (colorOf rm) ss) \<and> set cs = colorOf rm ` set ss"
  proof (cases "rooms rm r")
    case None
    with reg_invD(1)[OF inv, of r] show ?thesis by (simp add: ss_def cs_def)
  next
    case (Some l)
    with reg_invD(1)[OF inv, of r] obtain k where "roomColors rm r = Some k" by auto
    with Some cinv True show ?thesis by (simp add: color_inv_def ss_def cs_def)
  qed
  have len: "length ss < 10"
    using bound True by (simp add: getRoomUserCount_def ro ss_def)
  have "card (set cs) = card (colorOf rm ` set ss)" using old by simp
  also have "\<dots> \<le> card (set ss)" by (rule card_image_le) simp
  also have "\<dots> \<le> length ss" by (rule card_length)
  finally have "card (set cs) < 10" using len by simp
  from pick_fresh[OF this, of x] cu have fresh_c: "color_u u \<notin> set cs" by (simp add: cs_def)
  have same: "colorOf rm' t = colorOf rm t" if "t \<in> set ss" for t
    using that notin colorOf_upd_other[OF _ us, of t] by auto
  have new: "colorOf rm' s = color_u u" by (simp add: colorOf_def us)
  have m: "map (colorOf rm') ss = map (colorOf rm) ss"
    by (rule map_cong[OF refl]) (rule same)
  have i: "colorOf rm' ` set ss = colorOf rm ` set ss"
    by (rule image_cong[OF refl]) (rule same)
  show ?thesis unfolding color_inv_def
  proof (intro allI impI)
    fix l k assume a: "rooms rm' q = Some l \<and> roomColors rm' q = Some k"
    have "Set_add cs (color_u u) = cs @ [color_u u]"
      using fresh_c by (simp add: Set_add_def)
    with co have co': "roomColors rm' = (roomColors rm)(r \<mapsto> cs @ [color_u u])"
      unfolding cs_def by simp
    from ro have ro': "rooms rm' = (rooms rm)(r \<mapsto> ss @ [s])"
      unfolding ss_def .
    from a True have l: "l = ss @ [s]" and k: "k = cs @ [color_u u]"
      unfolding ro' co' by simp_all
    from old have d: "distinct (map (colorOf rm) ss)" and e: "set cs = colorOf rm ` set ss"
      by blast+
    from fresh_c e have f: "color_u u \<notin> colorOf rm ` set ss" by simp
    have "distinct (map (colorOf rm') l)"
      using d f by (simp add: l m new)
    moreover have "set k = colorOf rm' ` set l"
      by (simp add: l k i new e)
    ultimately show "distinct (map (colorOf rm') l) \<and> set k = colorOf rm' ` set l" by blast
  qed
qed

lemma colorOf_del_other: "t \<noteq> s \<Longrightarrow> users rm' = (users rm)(s := None) \<Longrightarrow> colorOf rm' t = colorOf rm t"
  by (simp add: colorOf_def)

lemma color_inv_same:
  assumes "color_inv q rm" and "rooms rm' q = rooms rm q" and "roomColors rm' q = roomColors rm q"
    and "\<And>ss t. rooms rm q = Some ss \<Longrightarrow> t \<in> set ss \<Longrightarrow> colorOf rm' t = colorOf rm t"
  shows "color_inv q rm'"
  unfolding color_inv_def
proof (intro allI impI)
  fix ss cs assume a: "rooms rm' q = Some ss \<and> roomColors rm' q = Some cs"
  with assms(2,3) have old: "rooms rm q = Some ss" "roomColors rm q = Some cs" by simp_all
  have m: "map (colorOf rm') ss = map (colorOf rm) ss"
    by (rule map_cong[OF refl]) (rule assms(4)[OF old(1)])
  have i: "colorOf rm' ` set ss = colorOf rm ` set ss"
    by (rule image_cong[OF refl]) (rule assms(4)[OF old(1)])
  from assms(1) old have "distinct (map (colorOf rm) ss) \<and> set cs = colorOf rm ` set ss"
    unfolding color_inv_def by blast
  then show "distinct (map (colorOf rm') ss) \<and> set cs = colorOf rm' ` set ss"
    unfolding m i .
qed

lemma leave_step:
  assumes inv: "reg_inv rm" and cinv: "color_inv q rm"
  shows "\<exists>rm'. removeUser rm s = Some rm' \<and> reg_inv rm' \<and> color_inv q rm'"
proof (cases "users rm s")
  case None
  with inv cinv show ?thesis by (simp add: removeUser_absent)
next
  case (Some u)
  define r where "r = roomId_u u"
  from reg_invD(2)[OF inv Some] obtain ss where ss: "rooms rm r = Some ss" and sin: "s \<in> set ss"
    unfolding r_def by blast
  from reg_invD(1)[OF inv, of r] ss obtain cs where cs: "roomColors rm r = Some cs" by auto
  from removeUser_fields[OF Some ss[unfolded r_def] reg_invD(1)[OF inv]]
  obtain rm' where res: "removeUser rm s = Some rm'"
    and us: "users rm' = (users rm)(s := None)"
    and ro: "rooms rm' = (if removeAll s ss = [] then (rooms rm)(r := None)
                          else (rooms rm)(r \<mapsto> removeAll s ss))"
    and co: "roomColors rm' = (if removeAll s ss = [] then (roomColors rm)(r := None)
                 else (roomColors rm)(r \<mapsto> removeAll (color_u u) cs))"
    using cs unfolding r_def by auto
  have other: "t \<noteq> s" if "rooms rm p = Some l" "t \<in> set l" "p \<noteq> r" for p l t
  proof
    assume "t = s"
    with reg_invD(4)[OF inv that(1,2)] Some have "roomId_u u = p" by simp
    with that(3) show False by (simp add: r_def)
  qed
  have keep: "colorOf rm' t = colorOf rm t" if "t \<noteq> s" for t
    using that us by (rule colorOf_del_other)
  have j1: "\<forall>p. (rooms rm' p = None) = (roomColors rm' p = None)"
    using reg_invD(1)[OF inv] by (simp add: ro co)
  have j2: "\<forall>t v. users rm' t = Some v \<longrightarrow> (\<exists>l. rooms rm' (roomId_u v) = Some l \<and> t \<in> set l)"
  proof (intro allI impI)
    fix t v assume tv: "users rm' t = Some v"
    with us have ts: "t \<noteq> s" and old: "users rm t = Some v" by (auto split: if_splits)
    from reg_invD(2)[OF inv old] obtain l where l: "rooms rm (roomId_u v) = Some l" "t \<in> set l"
      by blast
    show "\<exists>l. rooms rm' (roomId_u v) = Some l \<and> t \<in> set l"
    proof (cases "roomId_u v = r")
      case True
      with l ss have "l = ss" by simp
      with l ts have mem: "t \<in> set (removeAll s ss)" by simp
      have "removeAll s ss \<noteq> []"
      proof
        assume "removeAll s ss = []"
        with mem show False by (simp only: list.set empty_iff)
      qed
      with mem True show ?thesis by (simp add: ro)
    next
      case False
      with l show ?thesis by (simp add: ro)
    qed
  qed
  have j3: "\<forall>p l. rooms rm' p = Some l \<longrightarrow>
              distinct l \<and> (\<forall>t \<in> set l. \<exists>v. users rm' t = Some v \<and> roomId_u v = p)"
  proof (intro allI impI)
    fix p l assume pl: "rooms rm' p = Some l"
    show "distinct l \<and> (\<forall>t \<in> set l. \<exists>v. users rm' t = Some v \<and> roomId_u v = p)"
    proof (cases "p = r")
      case True
      with pl ro have l: "l = removeAll s ss" by (auto split: if_splits)
      have "distinct l" using reg_invD(3)[OF inv ss] by (simp add: l distinct_removeAll)
      moreover have "\<forall>t \<in> set l. \<exists>v. users rm' t = Some v \<and> roomId_u v = p"
        using reg_invD(4)[OF inv ss] True by (auto simp: l us)
      ultimately show ?thesis by blast
    next
      case False
      with pl ro have old: "rooms rm p = Some l" by (auto split: if_splits)
      have "\<forall>t \<in> set l. \<exists>v. users rm' t = Some v \<and> roomId_u v = p"
      proof
        fix t assume t: "t \<in> set l"
        from other[OF old t False] reg_invD(4)[OF inv old t]
        show "\<exists>v. users rm' t = Some v \<and> roomId_u v = p" by (simp add: us)
      qed
      with reg_invD(3)[OF inv old] show ?thesis by blast
    qed
  qed
  from j1 j2 j3 have rinv: "reg_inv rm'" unfolding reg_inv_def by blast
  have "color_inv q rm'"
  proof (cases "q = r")
    case False
    have same: "rooms rm' q = rooms rm q" "roomColors rm' q = roomColors rm q"
      using False by (simp_all add: ro co)
    have "colorOf rm' t = colorOf rm t" if "rooms rm q = Some l" "t \<in> set l" for l t
      using other[OF that False] by (rule keep)
    with cinv same show ?thesis by (rule color_inv_same)
  next
    case True
    from cinv ss cs True have d: "distinct (map (colorOf rm) ss)" and e: "set cs = colorOf rm ` set ss"
      unfolding color_inv_def by blast+
    show ?thesis
    proof (cases "removeAll s ss = []")
      case empty: True
      then show ?thesis by (simp add: color_inv_def ro True)
    next
      case False
      with ro co have ro': "rooms rm' r = Some (removeAll s ss)"
        and co': "roomColors rm' r = Some (removeAll (color_u u) cs)" by simp_all
      have c: "colorOf rm s = color_u u" by (simp add: colorOf_def Some)
      have m: "map (colorOf rm') (removeAll s ss) = map (colorOf rm) (removeAll s ss)"
        by (rule map_cong[OF refl]) (simp add: keep)
      have i: "colorOf rm' ` set (removeAll s ss) = colorOf rm ` set (removeAll s ss)"
        by (rule image_cong[OF refl]) (simp add: keep)
      have d': "distinct (map (colorOf rm) (removeAll s ss))"
        using d by (simp add: removeAll_filter_not_eq distinct_map_filter)
      from d have inj: "inj_on (colorOf rm) (set ss)" by (simp add: distinct_map)
      have "set (removeAll (color_u u) cs) = colorOf rm ` set ss - {colorOf rm s}"
        by (simp add: e c)
      also have "\<dots> = colorOf rm ` (set ss - {s})"
        using inj sin by (simp add: inj_on_image_set_diff)
      finally have e': "set (removeAll (color_u u) cs) = colorOf rm ` set (removeAll s ss)"
        by simp
      have "distinct (map (colorOf rm') (removeAll s ss))
            \<and> set (removeAll (color_u u) cs) = colorOf rm' ` set (removeAll s ss)"
        unfolding m i using d' e' by (rule conjI)
      then show ?thesis unfolding color_inv_def True ro' co' by simp
    qed
  qed
  with res rinv show ?thesis by blast
qed

lemma countWithin_head: "countWithin rm ops r n \<Longrightarrow> getRoomUserCount rm r \<le> n"
  by (cases ops) simp_all

lemma reg_inv_init: "reg_inv constructor_rm" "color_inv r constructor_rm"
  by (simp_all add: reg_inv_def color_inv_def constructor_rm_def)

lemma fresh_run_inv:
  assumes "reg_inv rm" "color_inv r rm" "freshJoins rm ops" "countWithin rm ops r 10"
  shows "\<exists>rm'. reg_run rm ops = Some rm' \<and> reg_inv rm' \<and> color_inv r rm'"
  using assms
proof (induction ops arbitrary: rm)
  case Nil
  then show ?case by simp
next
  case (Cons a as)
  have step: "\<exists>rm1. reg_exec rm a = Some rm1 \<and> reg_inv rm1 \<and> color_inv r rm1"
  proof (cases a)
    case (Join s q n x)
    with Cons.prems(3) have fresh: "users rm s = None" by simp
    from reg_inv_join[OF Cons.prems(1) fresh, of q n x]
    obtain u rm1 where res: "addUser rm s q n x = Some (u, rm1)" and inv1: "reg_inv rm1"
      and ru: "roomId_u u = q"
      and cu: "color_u u = pick (case roomColors rm q of None \<Rightarrow> [] | Some cs \<Rightarrow> cs) x"
      and us: "users rm1 = (users rm)(s \<mapsto> u)"
      and ro: "rooms rm1 = (rooms rm)(q \<mapsto> (case rooms rm q of None \<Rightarrow> [] | Some ss \<Rightarrow> ss) @ [s])"
      and co: "roomColors rm1 = (roomColors rm)(q \<mapsto>
                 Set_add (case roomColors rm q of None \<Rightarrow> [] | Some cs \<Rightarrow> cs) (color_u u))"
      by blast
    from res Join have ex: "reg_exec rm a = Some rm1" by simp
    with Cons.prems(4) have "countWithin rm1 as r 10" by simp
    then have "getRoomUserCount rm1 r \<le> 10" by (rule countWithin_head)
    from color_inv_join[OF Cons.prems(1,2) fresh ru cu us ro co this] ex inv1
    show ?thesis by blast
  next
    case (Leave s)
    with leave_step[OF Cons.prems(1,2), of s] show ?thesis by simp
  qed
  then obtain rm1 where ex: "reg_exec rm a = Some rm1" and i1: "reg_inv rm1" and c1: "color_inv r rm1"
    by blast
  from Cons.prems(3) ex have f1: "freshJoins rm1 as" by simp
  from Cons.prems(4) ex have w1: "countWithin rm1 as r 10" by simp
  from Cons.IH[OF i1 c1 f1 w1] ex show ?case by simp
qed

lemma members_colors:
  assumes "reg_inv rm"
  shows "map snd (members r rm) = (case rooms rm r of None \<Rightarrow> [] | Some ss \<Rightarrow> map (colorOf rm) ss)"
proof (cases "rooms rm r")
  case None
  then show ?thesis by (simp add: members_def getRoomUsers_def)
next
  case (Some ss)
  have "map color_u (List.map_filter (users rm) l) = map (colorOf rm) l"
    if "\<forall>t \<in> set l. \<exists>v. users rm t = Some v" for l
    using that by (induction l) (auto simp: List.map_filter_simps colorOf_def)
  moreover have "\<forall>t \<in> set ss. \<exists>v. users rm t = Some v"
    using reg_invD(4)[OF assms Some] by blast
  ultimately show ?thesis using Some by (simp add: members_def getRoomUsers_def comp_def)
qed


section \<open>The claims\<close>

subsection \<open>C1: the drawing of a room after its last member left\<close>




text \<open>
  The registry part speaks of the room in the user record only. A socket that joined
  \<open>R\<close> and then \<open>Q\<close> is removed from \<open>Q\<close> when it disconnects; room \<open>R\<close> keeps it in
  its socket set, with its colour, and still counts one member.
\<close>

lemma moved_socket_stays_listed:
  "on_join_room joined_server ''s1'' (Some ''Q'') 105 0 \<noteq> None
   \<and> map_option roomId_u (getUser (roomManager moved_server) ''s1'') = Some ''Q''
   \<and> on_disconnect moved_server ''s1'' \<noteq> None
   \<and> rooms (roomManager (snd (the (on_disconnect moved_server ''s1'')))) ''Q'' = None
   \<and> rooms (roomManager (snd (the (on_disconnect moved_server ''s1'')))) ''R'' = Some [''s1'']
   \<and> roomColors (roomManager (snd (the (on_disconnect moved_server ''s1'')))) ''R''
        = Some [''#FF6B6B'']
   \<and> getRoomUserCount (roomManager (snd (the (on_disconnect moved_server ''s1'')))) ''R'' = 1"
  by code_simp

subsection \<open>C2: closing a stroke with fewer than two points\<close>

text \<open>
  C2 as stated fails. A stroke opened with one point and closed at once (no append in
  between) is still in the timeline and in the \<open>getFullState\<close> snapshot.
\<close>

theorem C2_one_point_stroke_retained:
  "length (path_s one_point_stroke) < 2
   \<and> strokes_f (fst (getFullState
         (finalizeStroke one_point_store ''room'' (id_s one_point_stroke)) ''room''))
       = [one_point_stroke]"
  by code_simp

text \<open>
  C2, amended. \<open>finalizeStroke\<close> changes nothing in the store and the \<open>stroke-end\<close>
  handler leaves the server as it was, whatever the number of points of the stroke.
  A stroke that is opened and then closed stays the last element of the room's
  timeline in the \<open>getFullState\<close> snapshot, with the path it was opened with.
\<close>

theorem C2_close_changes_nothing:
  "finalizeStroke m r sid = m
   \<and> snd (on_stroke_end sv sock rid (Some sid)) = sv
   \<and> strokes_f (fst (getFullState
         (finalizeStroke (snd (addStroke m r d n1 n2)) r (id_s (fst (addStroke m r d n1 n2)))) r))
       = timeline m r @ [fst (addStroke m r d n1 n2)]
   \<and> path_s (fst (addStroke m r d n1 n2)) = path_d d"
proof -
  have "timeline (snd (addStroke m r d n1 n2)) r = timeline m r @ [fst (addStroke m r d n1 n2)]"
    by (cases "roomStates m r") (simp_all add: timeline_def addStroke_room)
  moreover have "path_s (fst (addStroke m r d n1 n2)) = path_d d"
    by (cases "roomStates m r") (simp_all add: addStroke_def getRoomState_def generateStrokeId_def Let_def)
  ultimately show ?thesis
    by (simp add: finalizeStroke_def on_stroke_end_def getFullState_strokes)
qed

subsection \<open>C3: appending after close\<close>




subsection \<open>C4: undo followed by redo\<close>



subsection \<open>C5: a new stroke clears the user's undo stack\<close>

text \<open>
  C5. In any state, \<open>addStroke\<close> for a user leaves that user without an undo stack in
  the room; so after \<open>undo\<close> for the user and then \<open>addStroke\<close> for the same user,
  \<open>redo\<close> for that user returns \<open>null\<close> and changes nothing.
\<close>

theorem C5_redo_after_new_stroke_is_null:
  "stackOf (snd (addStroke m r d n1 n2)) r (userId_d d) = None
   \<and> redo (snd (addStroke (snd (undo m r (userId_d d))) r d n1 n2)) r (userId_d d)
       = (None, snd (addStroke (snd (undo m r (userId_d d))) r d n1 n2))"
  by (simp add: redo_def stackOf_def addStroke_room)

subsection \<open>C6: undo leaves the strokes of other users alone\<close>

text \<open>
  C6. \<open>undo\<close> for user \<open>a\<close> keeps every stroke that is not owned by \<open>a\<close>, in the same
  order. It returns \<open>null\<close> only when \<open>a\<close> owns no stroke of the room's timeline, and
  then the store is unchanged. Otherwise it returns a stroke \<open>s\<close> owned by \<open>a\<close> such
  that no stroke after it in the timeline is owned by \<open>a\<close>, and the new timeline is the
  old one with this single element taken out, wherever it was. The state of every
  other room is unchanged.
\<close>

theorem C6_undo_keeps_other_strokes:
  "filter (\<lambda>t. userId_s t \<noteq> a) (timeline (snd (undo m r a)) r)
     = filter (\<lambda>t. userId_s t \<noteq> a) (timeline m r)
   \<and> (case fst (undo m r a) of
        None \<Rightarrow> a \<notin> userId_s ` set (timeline m r) \<and> snd (undo m r a) = m
      | Some s \<Rightarrow>
          userId_s s = a \<and>
          (\<exists>xs ys. timeline m r = xs @ s # ys \<and> timeline (snd (undo m r a)) r = xs @ ys
                   \<and> (\<forall>t \<in> set ys. userId_s t \<noteq> a)))
   \<and> (r' \<noteq> r \<longrightarrow> roomStates (snd (undo m r a)) r' = roomStates m r')"
proof (cases "fst (undo m r a)")
  case None
  have "a \<notin> userId_s ` set (timeline m r)"
  proof
    assume "a \<in> userId_s ` set (timeline m r)"
    from undo_finds[OF this] None show False by simp
  qed
  with None show ?thesis by (simp add: undo_None undo_other_room)
next
  case (Some s)
  from undo_split[OF Some] obtain xs ys where
    before: "timeline m r = xs @ s # ys"
    and after: "timeline (snd (undo m r a)) r = xs @ ys"
    and own: "userId_s s = a"
    and later: "\<forall>t \<in> set ys. userId_s t \<noteq> a"
    by blast
  have "filter (\<lambda>t. userId_s t \<noteq> a) (timeline (snd (undo m r a)) r)
          = filter (\<lambda>t. userId_s t \<noteq> a) (timeline m r)"
    by (simp only: before after filter_append filter.simps own) simp
  moreover have "\<exists>xs ys. timeline m r = xs @ s # ys \<and> timeline (snd (undo m r a)) r = xs @ ys
                   \<and> (\<forall>t \<in> set ys. userId_s t \<noteq> a)"
    using before after later by blast
  ultimately show ?thesis using Some own by (simp add: undo_other_room)
qed

theorem C6_undo_keeps_other_strokes_witness:
  "map userId_s (timeline five_stroke_store ''room'')
     = [''user_1_5'', ''user_2_6'', ''user_1_5'', ''user_2_6'', ''user_2_6'']
   \<and> map_option id_s (fst (undo five_stroke_store ''room'' ''user_1_5'')) = Some ''stroke_3_15''
   \<and> map id_s (timeline (snd (undo five_stroke_store ''room'' ''user_1_5'')) ''room'')
       = [''stroke_1_11'', ''stroke_2_13'', ''stroke_4_17'', ''stroke_5_19'']
   \<and> filter (\<lambda>t. userId_s t \<noteq> ''user_1_5'')
        (timeline (snd (undo five_stroke_store ''room'' ''user_1_5'')) ''room'')
       = filter (\<lambda>t. userId_s t \<noteq> ''user_1_5'') (timeline five_stroke_store ''room'')"
proof -
  have "map userId_s (timeline five_stroke_store ''room'')
     = [''user_1_5'', ''user_2_6'', ''user_1_5'', ''user_2_6'', ''user_2_6'']"
    by code_simp
  moreover have "map_option id_s (fst (undo five_stroke_store ''room'' ''user_1_5'')) = Some ''stroke_3_15''"
    by code_simp
  moreover have "map id_s (timeline (snd (undo five_stroke_store ''room'' ''user_1_5'')) ''room'')
       = [''stroke_1_11'', ''stroke_2_13'', ''stroke_4_17'', ''stroke_5_19'']"
    by code_simp
  ultimately show ?thesis
    using C6_undo_keeps_other_strokes[of "''user_1_5''" five_stroke_store "''room''"] by simp
qed

subsection \<open>C7: colours of the members of a room\<close>

text \<open>
  C7, evaluated where the code departs from it. \<open>addUser\<close> does not look whether the
  socket is registered already: each further \<open>join-room\<close> of a socket adds one more
  colour to the room's set and frees none. After ten joins of socket \<open>s1\<close> the palette is
  used up while the room has one member, and socket \<open>s2\<close> gets a random palette colour,
  here the colour of \<open>s1\<close>. The room never has more than two members.
\<close>

theorem C7_reused_socket_collision:
  "countWithin constructor_rm reused_socket_joins ''R'' 2
   \<and> map_option (members ''R'') (reg_run constructor_rm reused_socket_joins)
       = Some [(''s1'', ''#52BE80''), (''s2'', ''#52BE80'')]"
  by code_simp

text \<open>
  The missed case is the only way to a shared colour below eleven members. When every
  join comes from a socket that is not registered at that moment and room \<open>r\<close> never
  has more than ten members, the run raises no error and the members of \<open>r\<close> have
  pairwise different colours.
\<close>

theorem fresh_joins_distinct_colors:
  assumes "freshJoins constructor_rm ops" and "countWithin constructor_rm ops r 10"
  shows "\<exists>rm. reg_run constructor_rm ops = Some rm \<and> distinct (map snd (members r rm))"
proof -
  from fresh_run_inv[OF reg_inv_init(1) reg_inv_init(2) assms]
  obtain rm where run: "reg_run constructor_rm ops = Some rm" and inv: "reg_inv rm"
    and cinv: "color_inv r rm" by blast
  have "distinct (map snd (members r rm))"
  proof (cases "rooms rm r")
    case None
    then show ?thesis by (simp add: members_colors[OF inv])
  next
    case (Some ss)
    with reg_invD(1)[OF inv, of r] obtain cs where "roomColors rm r = Some cs" by auto
    with cinv Some have "distinct (map (colorOf rm) ss)" unfolding color_inv_def by blast
    with Some show ?thesis by (simp add: members_colors[OF inv])
  qed
  with run show ?thesis by blast
qed

theorem fresh_joins_distinct_colors_example:
  "freshJoins constructor_rm fresh_socket_joins
   \<and> countWithin constructor_rm fresh_socket_joins ''R'' 10
   \<and> map_option (members ''R'') (reg_run constructor_rm fresh_socket_joins)
       = Some [(''s2'', ''#4ECDC4''), (''s3'', ''#FF6B6B'')]"
  by code_simp

subsection \<open>C8: an update that names no stroke of the room\<close>

text \<open>
  C8. When the room has no state, or the stroke id is not the id of a stroke in the
  room's timeline, \<open>updateStroke\<close> returns \<open>false\<close> and the store it leaves is the store
  it was given; the \<open>stroke-update\<close> handler then emits nothing and leaves the whole
  server unchanged.
\<close>

theorem C8_unknown_stroke_update_is_noop:
  assumes "roomStates (drawingStateManager sv) r = None
           \<or> sid \<notin> id_s ` set (timeline (drawingStateManager sv) r)"
  shows "updateStroke (drawingStateManager sv) r sid x y = (False, drawingStateManager sv)
         \<and> on_stroke_update sv sock (Some r) (Some sid) x y = ([], sv)"
proof -
  have u: "updateStroke (drawingStateManager sv) r sid x y = (False, drawingStateManager sv)"
  proof (cases "roomStates (drawingStateManager sv) r")
    case None
    then show ?thesis by (simp add: updateStroke_def)
  next
    case (Some rs)
    with assms have "\<forall>a \<in> set (strokes rs). id_s a \<noteq> sid"
      by (auto simp: timeline_def)
    then have "findIndex (\<lambda>s. id_s s = sid) (strokes rs) = None"
      by (simp add: findIndex_None)
    with Some show ?thesis by (simp add: updateStroke_def)
  qed
  then show ?thesis by (simp add: on_stroke_update_def)
qed

theorem C8_unknown_stroke_update_is_noop_witness:
  "''stroke_9_9'' \<notin> id_s ` set (timeline one_point_store ''room'')
   \<and> updateStroke one_point_store ''room'' ''stroke_9_9'' 1 2 = (False, one_point_store)
   \<and> on_stroke_update \<lparr>roomManager = constructor_rm, drawingStateManager = one_point_store\<rparr>
        ''socket'' (Some ''room'') (Some ''stroke_9_9'') 1 2
       = ([], \<lparr>roomManager = constructor_rm, drawingStateManager = one_point_store\<rparr>)"
proof -
  have h: "''stroke_9_9'' \<notin> id_s ` set (timeline one_point_store ''room'')"
    by code_simp
  from C8_unknown_stroke_update_is_noop
    [of "\<lparr>roomManager = constructor_rm, drawingStateManager = one_point_store\<rparr>"
        "''room''" "''stroke_9_9''" 1 2 "''socket''"] h
  show ?thesis by simp
qed

subsection \<open>C9: a stroke is in one place only\<close>

text \<open>
  C9. In the store reached from the empty store by any sequence of \<open>addStroke\<close>,
  \<open>updateStroke\<close>, \<open>undo\<close> and \<open>redo\<close> calls, in every room: no id occurs twice in the
  timeline, no id occurs twice on a user's undo stack, no id is both on an undo stack
  and in the timeline, and no id is on the undo stacks of two different users.
\<close>

theorem C9_stroke_in_one_place:
  "distinct (map id_s (timeline (run constructor_dsm ops) r))
   \<and> (\<forall>u su. stackOf (run constructor_dsm ops) r u = Some su \<longrightarrow>
         distinct (map id_s su)
         \<and> id_s ` set su \<inter> id_s ` set (timeline (run constructor_dsm ops) r) = {}
         \<and> (\<forall>v sv. v \<noteq> u \<and> stackOf (run constructor_dsm ops) r v = Some sv \<longrightarrow>
                id_s ` set su \<inter> id_s ` set sv = {}))"
proof (cases "roomStates (run constructor_dsm ops) r")
  case None
  then show ?thesis by (simp add: timeline_def stackOf_def)
next
  case (Some rs)
  from store_inv_run[OF store_inv_init, of ops] Some
  have inv: "room_inv (strokeIdCounter (run constructor_dsm ops)) rs"
    by (simp add: store_inv_def)
  then have d1: "distinct (map id_s (strokes rs))"
    and d2: "\<And>v. distinct (stackIds rs v)"
    and d3: "\<And>v. set (stackIds rs v) \<inter> set (map id_s (strokes rs)) = {}"
    and d4: "\<And>v w. v \<noteq> w \<Longrightarrow> set (stackIds rs v) \<inter> set (stackIds rs w) = {}"
    unfolding room_inv_def by blast+
  have stk: "undoStacks rs u = Some su \<Longrightarrow> stackIds rs u = map id_s su" for u su
    by (simp add: stackIds_def)
  show ?thesis
    unfolding timeline_def stackOf_def Some option.case
  proof (intro conjI allI impI)
    show "distinct (map id_s (strokes rs))" by (rule d1)
  next
    fix u su assume "undoStacks rs u = Some su"
    from d2[of u] stk[OF this] show "distinct (map id_s su)" by simp
  next
    fix u su assume "undoStacks rs u = Some su"
    from d3[of u] stk[OF this] show "id_s ` set su \<inter> id_s ` set (strokes rs) = {}" by simp
  next
    fix u su v sv
    assume u: "undoStacks rs u = Some su" and v: "v \<noteq> u \<and> undoStacks rs v = Some sv"
    then have "u \<noteq> v" by blast
    from d4[OF this] stk[OF u] stk[of v sv] v show "id_s ` set su \<inter> id_s ` set sv = {}" by simp
  qed
qed

theorem C9_stroke_in_one_place_witness:
  "map_option (map userId_s) (stackOf undone_store ''room'' ''user_1_5'') = Some [''user_1_5'']
   \<and> map_option (map userId_s) (stackOf undone_store ''room'' ''user_2_6'') = Some [''user_2_6'']
   \<and> map userId_s (timeline undone_store ''room'') = [''user_1_5'']
   \<and> id_s ` set (the (stackOf undone_store ''room'' ''user_1_5''))
        \<inter> id_s ` set (timeline undone_store ''room'') = {}
   \<and> id_s ` set (the (stackOf undone_store ''room'' ''user_1_5''))
        \<inter> id_s ` set (the (stackOf undone_store ''room'' ''user_2_6'')) = {}"
proof -
  have a: "map_option (map userId_s) (stackOf undone_store ''room'' ''user_1_5'') = Some [''user_1_5'']"
    by code_simp
  have b: "map_option (map userId_s) (stackOf undone_store ''room'' ''user_2_6'') = Some [''user_2_6'']"
    by code_simp
  have c: "map userId_s (timeline undone_store ''room'') = [''user_1_5'']"
    by code_simp
  from a obtain su where su: "stackOf undone_store ''room'' ''user_1_5'' = Some su" by auto
  from b obtain sv where sv: "stackOf undone_store ''room'' ''user_2_6'' = Some sv" by auto
  have ne: "''user_2_6'' \<noteq> ''user_1_5''" by simp
  note inst = C9_stroke_in_one_place
    [of "[AddStroke ''room'' strokeDataA 11 12, AddStroke ''room'' strokeDataB 13 14,
          AddStroke ''room'' strokeDataA 15 16, Undo ''room'' ''user_1_5'',
          Undo ''room'' ''user_2_6'']" "''room''", folded undone_store_def,
     THEN conjunct2, rule_format, OF su]
  from inst have d: "id_s ` set su \<inter> id_s ` set (timeline undone_store ''room'') = {}"
    by (rule conjunct2[THEN conjunct1])
  from inst have "\<forall>v sv. v \<noteq> ''user_1_5'' \<and> stackOf undone_store ''room'' v = Some sv
                   \<longrightarrow> id_s ` set su \<inter> id_s ` set sv = {}"
    by (rule conjunct2[THEN conjunct2])
  from this[rule_format, of "''user_2_6''" sv] ne sv
  have e: "id_s ` set su \<inter> id_s ` set sv = {}" by simp
  from d e show ?thesis unfolding a b c unfolding su sv option.sel
    by (intro conjI refl)
qed

subsection \<open>C10: the full state of a room without state\<close>

text \<open>
  C10. For a room key without room state, \<open>getFullState\<close> returns the room key with
  an empty list of strokes, and the store it leaves is the store it was given: no room
  state is created. A room whose state was cleared by \<open>clearRoom\<close> is such a room.
\<close>

theorem C10_fullState_of_missing_room:
  assumes "roomStates m r = None"
  shows "getFullState m r = (\<lparr>roomId_f = r, strokes_f = []\<rparr>, m)
         \<and> roomStates (snd (getFullState m r)) = roomStates m
         \<and> getFullState (clearRoom m' r) r
             = (\<lparr>roomId_f = r, strokes_f = []\<rparr>, clearRoom m' r)"
  using assms by (simp add: getFullState_def clearRoom_lookup)

theorem C10_fullState_of_missing_room_witness:
  "roomStates one_point_store ''lobby'' = None
   \<and> getFullState one_point_store ''lobby''
       = (\<lparr>roomId_f = ''lobby'', strokes_f = []\<rparr>, one_point_store)"
proof -
  have h: "roomStates one_point_store ''lobby'' = None"
    by code_simp
  from C10_fullState_of_missing_room[OF h] h show ?thesis by simp
qed

end
